theory Spec2Isabelle
  imports Complex_Main "HOL-Library.Word"
begin

unbundle bit_operations_syntax

section \<open>Buffers\<close>

text \<open>
  A Node \<open>Buffer\<close> is an ordered sequence of bytes. Positions, chunk sizes and chunk
  indices are JavaScript numbers; they are modelled as \<open>int\<close> (the interface takes
  integers), so zero and negative values stay expressible.
\<close>

type_synonym byte = "8 word"
type_synonym buffer = "byte list"

text \<open>
  \<open>buf.subarray(start, end)\<close>: a negative bound counts from the end of the buffer, both
  bounds are clamped to \<open>[0, length]\<close>, and the view is empty when the end is not
  after the start.
\<close>

definition relativeIndex :: "int \<Rightarrow> int \<Rightarrow> int" where
  "relativeIndex len k = (if k < 0 then max (len + k) 0 else min k len)"

definition subarray :: "buffer \<Rightarrow> int \<Rightarrow> int \<Rightarrow> buffer" where
  "subarray buf start end =
     (let len = int (length buf);
          first = relativeIndex len start;
          final = relativeIndex len end
      in take (nat (final - first)) (drop (nat first) buf))"

section \<open>Chunker\<close>

text \<open>
  \<open>for (let i = 0; i < file.length; i += chunkSizeBytes) chunks.push(file.subarray(i, i + chunkSizeBytes))\<close>.
  The loop has no guard on \<open>chunkSizeBytes\<close>; a run that never leaves the loop is the
  value \<open>None\<close>.
\<close>

partial_function (option) divideLoop ::
  "buffer \<Rightarrow> int \<Rightarrow> int \<Rightarrow> buffer list \<Rightarrow> buffer list option" where
  "divideLoop file chunkSizeBytes i chunks =
     (if i < int (length file)
      then divideLoop file chunkSizeBytes (i + chunkSizeBytes)
             (chunks @ [subarray file i (i + chunkSizeBytes)])
      else Some chunks)"

definition divideToChunks :: "buffer \<Rightarrow> int \<Rightarrow> buffer list option" where
  "divideToChunks file chunkSizeBytes = divideLoop file chunkSizeBytes 0 []"

section \<open>Checksums\<close>

subsection \<open>Weak checksum: Adler-32\<close>

text \<open>
  \<open>adler32.buf\<close> of the package adler-32, from its published behaviour: with
  \<open>a = 1\<close> and \<open>b = 0\<close> at the start, every byte adds itself to \<open>a\<close> and then
  \<open>a\<close> to \<open>b\<close>, both modulo 65521; the result is \<open>(b << 16) | a\<close>, which
  JavaScript reads as a signed 32-bit integer.
\<close>

definition adler32_step :: "byte \<Rightarrow> int \<times> int \<Rightarrow> int \<times> int" where
  "adler32_step x s =
     (let a = (fst s + uint x) mod 65521; b = (snd s + a) mod 65521 in (a, b))"

definition adler32_buf :: "buffer \<Rightarrow> int" where
  "adler32_buf buf =
     (let s = fold adler32_step buf (1, 0)
      in sint (word_of_int (snd s * 65536 + fst s) :: 32 word))"

definition calculateWeakBlockChecksum :: "buffer \<Rightarrow> int" where
  "calculateWeakBlockChecksum buffer = adler32_buf buffer"

subsection \<open>Strong checksum: SHA-1, hex encoded\<close>

text \<open>
  \<open>crypto.createHash("sha1")\<close>, \<open>update\<close>, \<open>digest("hex")\<close>: SHA-1 as FIPS 180-4
  defines it, on 32-bit words, printed as 40 lower-case hexadecimal digits. The message
  is padded to a multiple of 64 bytes; each block is read as 16 big-endian words, which
  the message schedule extends to 80 (each new word from the 16 before it); 80 rounds
  update five working words, which are then added to the hash value.
\<close>

definition rotl32 :: "nat \<Rightarrow> 32 word \<Rightarrow> 32 word" where
  "rotl32 n x = push_bit n x OR drop_bit (32 - n) x"

definition sha1_pad :: "buffer \<Rightarrow> buffer" where
  "sha1_pad msg =
     (let l = length msg;
          bits = (word_of_nat (8 * l) :: 64 word)
      in msg @ [0x80] @ replicate ((119 - l mod 64) mod 64) 0 @
         map (\<lambda>k. ucast (drop_bit (8 * k) bits)) [7, 6, 5, 4, 3, 2, 1, 0])"

fun be32 :: "buffer \<Rightarrow> 32 word" where
  "be32 [] = 0"
| "be32 (x # xs) = push_bit (8 * length xs) (ucast x) OR be32 xs"

text \<open>
  The consecutive blocks of \<open>n\<close> elements of a list, the last one shorter when the
  length is not a multiple of \<open>n\<close>: the 64-byte blocks of a padded message and the
  4-byte groups of a block.
\<close>

fun blocksOf :: "nat \<Rightarrow> 'a list \<Rightarrow> 'a list list" where
  "blocksOf n [] = []"
| "blocksOf n (x # xs) =
     (if n = 0 then [] else take n (x # xs) # blocksOf n (drop n (x # xs)))"

text \<open>
  \<open>sha1_expand n w\<close>: the next \<open>n\<close> words of the schedule, \<open>w\<close> being the 16 words
  before them (\<open>W(t) = ROTL 1 (W(t-3) xor W(t-8) xor W(t-14) xor W(t-16))\<close>).
\<close>

fun sha1_expand :: "nat \<Rightarrow> 32 word list \<Rightarrow> 32 word list" where
  "sha1_expand 0 w = []"
| "sha1_expand (Suc n) w =
     (let x = rotl32 1 (w ! 13 XOR w ! 8 XOR w ! 2 XOR w ! 0)
      in x # sha1_expand n (tl w @ [x]))"

definition sha1_f :: "nat \<Rightarrow> 32 word \<Rightarrow> 32 word \<Rightarrow> 32 word \<Rightarrow> 32 word" where
  "sha1_f t b c d =
     (if t < 20 then (b AND c) OR (NOT b AND d)
      else if t < 40 then b XOR c XOR d
      else if t < 60 then (b AND c) OR (b AND d) OR (c AND d)
      else b XOR c XOR d)"

definition sha1_k :: "nat \<Rightarrow> 32 word" where
  "sha1_k t =
     (if t < 20 then 0x5A827999
      else if t < 40 then 0x6ED9EBA1
      else if t < 60 then 0x8F1BBCDC
      else 0xCA62C1D6)"

type_synonym sha1_state = "32 word \<times> 32 word \<times> 32 word \<times> 32 word \<times> 32 word"

text \<open>\<open>sha1_rounds t ws s\<close>: the rounds from round \<open>t\<close> on, one per schedule word.\<close>

fun sha1_rounds :: "nat \<Rightarrow> 32 word list \<Rightarrow> sha1_state \<Rightarrow> sha1_state" where
  "sha1_rounds t [] s = s"
| "sha1_rounds t (w # ws) (a, b, c, d, e) =
     sha1_rounds (Suc t) ws
       (rotl32 5 a + sha1_f t b c d + e + sha1_k t + w, a, rotl32 30 b, c, d)"

fun sha1_block :: "buffer \<Rightarrow> sha1_state \<Rightarrow> sha1_state" where
  "sha1_block block (h0, h1, h2, h3, h4) =
     (let w = map be32 (blocksOf 4 block)
      in case sha1_rounds 0 (w @ sha1_expand 64 w) (h0, h1, h2, h3, h4) of
           (a, b, c, d, e) \<Rightarrow> (h0 + a, h1 + b, h2 + c, h3 + d, h4 + e))"

definition sha1 :: "buffer \<Rightarrow> sha1_state" where
  "sha1 msg =
     fold sha1_block (blocksOf 64 (sha1_pad msg))
       (0x67452301, 0xEFCDAB89, 0x98BADCFE, 0x10325476, 0xC3D2E1F0)"

definition hexDigits :: string where
  "hexDigits = ''0123456789abcdef''"

definition hexDigit :: "nat \<Rightarrow> char" where
  "hexDigit n = hexDigits ! (n mod 16)"

definition hex32 :: "32 word \<Rightarrow> string" where
  "hex32 w = map (\<lambda>k. hexDigit (unat (drop_bit (4 * k) w AND 15))) [7, 6, 5, 4, 3, 2, 1, 0]"

fun hexDigest :: "sha1_state \<Rightarrow> string" where
  "hexDigest (h0, h1, h2, h3, h4) = hex32 h0 @ hex32 h1 @ hex32 h2 @ hex32 h3 @ hex32 h4"

definition calculateStrongBlockChecksum :: "buffer \<Rightarrow> string" where
  "calculateStrongBlockChecksum buffer = hexDigest (sha1 buffer)"

section \<open>Checksum index\<close>

record checksumEntry =
  index :: int
  strong :: string

type_synonym checksumMap = "int \<rightharpoonup> checksumEntry"

text \<open>
  \<open>originalChunks.forEach((chunk, index) => checksumMap.set(weak, { index, strong }))\<close>:
  a later chunk with the same weak checksum replaces the earlier entry. Both scanning
  functions build the index with these same lines.
\<close>

definition setChecksum :: "nat \<Rightarrow> buffer \<Rightarrow> checksumMap \<Rightarrow> checksumMap" where
  "setChecksum i chunk checksumMap =
     (let weak = calculateWeakBlockChecksum chunk;
          strongSum = calculateStrongBlockChecksum chunk
      in checksumMap(weak \<mapsto> \<lparr>index = int i, strong = strongSum\<rparr>))"

definition buildChecksumMap :: "buffer list \<Rightarrow> checksumMap" where
  "buildChecksumMap originalChunks =
     fold (\<lambda>(i, chunk). setChecksum i chunk) (enumerate 0 originalChunks) Map.empty"

text \<open>
  The test both loops apply to a window:
  \<open>if (checksumMap.has(weak)) { const originalChecksum = checksumMap.get(weak)!;
  if (originalChecksum.strong === strong) { ... continue; } }\<close>.
  The result is the entry when the inner branch is taken and \<open>None\<close> when control falls
  through to the code after the two tests.
\<close>

definition matchWindow :: "checksumMap \<Rightarrow> buffer \<Rightarrow> checksumEntry option" where
  "matchWindow checksumMap windowBuffer =
     (let weak = calculateWeakBlockChecksum windowBuffer;
          strongSum = calculateStrongBlockChecksum windowBuffer
      in case checksumMap weak of
           None \<Rightarrow> None
         | Some originalChecksum \<Rightarrow>
             if strong originalChecksum = strongSum then Some originalChecksum else None)"

section \<open>Matcher\<close>

partial_function (option) findLoop ::
  "checksumMap \<Rightarrow> buffer \<Rightarrow> int \<Rightarrow> int \<Rightarrow> buffer \<Rightarrow> buffer list \<Rightarrow> buffer list option" where
  "findLoop checksumMap targetData chunkSizeBytes targetPosition windowBuffer differingChunks =
     (if targetPosition \<le> int (length targetData) - chunkSizeBytes
      then (case matchWindow checksumMap windowBuffer of
              Some originalChecksum \<Rightarrow>
                findLoop checksumMap targetData chunkSizeBytes
                  (targetPosition + chunkSizeBytes)
                  (subarray targetData (targetPosition + chunkSizeBytes)
                     (targetPosition + chunkSizeBytes + chunkSizeBytes))
                  differingChunks
            | None \<Rightarrow>
                findLoop checksumMap targetData chunkSizeBytes
                  (targetPosition + 1)
                  (subarray targetData (targetPosition + 1)
                     (targetPosition + 1 + chunkSizeBytes))
                  (differingChunks @ [subarray windowBuffer 0 chunkSizeBytes]))
      else Some differingChunks)"

definition findDifferingChunks :: "buffer \<Rightarrow> buffer \<Rightarrow> int \<Rightarrow> buffer list option" where
  "findDifferingChunks originalData targetData chunkSizeBytes =
     (case divideToChunks originalData chunkSizeBytes of
        None \<Rightarrow> None
      | Some originalChunks \<Rightarrow>
          findLoop (buildChecksumMap originalChunks) targetData chunkSizeBytes 0
            (subarray targetData 0 (0 + chunkSizeBytes)) [])"

text \<open>An instruction is \<open>Buffer | number\<close>, told apart by \<open>typeof\<close>.\<close>

datatype instruction = CopyRef int | Literal buffer

text \<open>
  \<open>if (differingBuffer.length > 0) instructions.push(Buffer.concat(differingBuffer))\<close>;
  \<open>differingBuffer\<close> is an array of one-byte views, and its length is the number of views.
\<close>

definition flushDiffering :: "buffer list \<Rightarrow> instruction list \<Rightarrow> instruction list" where
  "flushDiffering differingBuffer instructions =
     (if length differingBuffer > 0
      then instructions @ [Literal (concat differingBuffer)]
      else instructions)"

partial_function (option) generateLoop ::
  "checksumMap \<Rightarrow> buffer \<Rightarrow> int \<Rightarrow> int \<Rightarrow> buffer list \<Rightarrow> instruction list
     \<Rightarrow> instruction list option" where
  "generateLoop checksumMap targetData chunkSizeBytes targetPosition differingBuffer instructions =
     (if targetPosition < int (length targetData)
      then (case (if targetPosition \<le> int (length targetData) - chunkSizeBytes
                  then matchWindow checksumMap
                         (subarray targetData targetPosition (targetPosition + chunkSizeBytes))
                  else None) of
              Some originalChecksum \<Rightarrow>
                generateLoop checksumMap targetData chunkSizeBytes
                  (targetPosition + chunkSizeBytes)
                  (if length differingBuffer > 0 then [] else differingBuffer)
                  (flushDiffering differingBuffer instructions @
                     [CopyRef (index originalChecksum)])
            | None \<Rightarrow>
                generateLoop checksumMap targetData chunkSizeBytes
                  (targetPosition + 1)
                  (differingBuffer @ [subarray targetData targetPosition (targetPosition + 1)])
                  instructions)
      else Some (flushDiffering differingBuffer instructions))"

text \<open>The \<open>console.log\<close> of the result has no effect on the value returned.\<close>

definition generateInstructions ::
  "buffer \<Rightarrow> buffer \<Rightarrow> int \<Rightarrow> instruction list option" where
  "generateInstructions originalData targetData chunkSizeBytes =
     (case divideToChunks originalData chunkSizeBytes of
        None \<Rightarrow> None
      | Some originalChunks \<Rightarrow>
          generateLoop (buildChecksumMap originalChunks) targetData chunkSizeBytes 0 [] [])"

section \<open>Reconstructor\<close>

text \<open>
  \<open>originalChunks[instruction]\<close> is \<open>undefined\<close> (here \<open>None\<close>) when the number is not an
  index of the array. \<open>Buffer.concat\<close> throws a \<open>TypeError\<close> when an element of its list
  is not a buffer, and returns the bytes of the elements in order otherwise.
\<close>

datatype error = TypeError

definition arrayGet :: "'a list \<Rightarrow> int \<Rightarrow> 'a option" where
  "arrayGet xs k = (if 0 \<le> k \<and> k < int (length xs) then Some (xs ! nat k) else None)"

definition bufferConcat :: "buffer option list \<Rightarrow> error + buffer" where
  "bufferConcat list =
     (if None \<in> set list then Inl TypeError else Inr (concat (map the list)))"

definition rebuildStep :: "buffer list \<Rightarrow> instruction \<Rightarrow> buffer option" where
  "rebuildStep originalChunks instruction =
     (case instruction of
        CopyRef n \<Rightarrow> arrayGet originalChunks n
      | Literal bytes \<Rightarrow> Some bytes)"

definition rebuildTargetFromOriginal ::
  "buffer \<Rightarrow> instruction list \<Rightarrow> int \<Rightarrow> (error + buffer) option" where
  "rebuildTargetFromOriginal originalData instructions chunkSizeBytes =
     (case divideToChunks originalData chunkSizeBytes of
        None \<Rightarrow> None
      | Some originalChunks \<Rightarrow>
          Some (bufferConcat (map (rebuildStep originalChunks) instructions)))"

section \<open>The scan as a list of decisions\<close>

text \<open>
  What the loop of \<open>generateInstructions\<close> decides at each cursor position it visits:
  the window there matched an entry of the index (and the cursor jumped by a chunk), or the
  byte there was taken as differing (and the cursor moved by one). The tests are the
  loop's own; only the bookkeeping of \<open>differingBuffer\<close> and \<open>instructions\<close> is left out.
  The list is defined by recursion on the distance to the end of the target, which
  shrinks only when the chunk size is positive and the cursor is not negative: outside
  that case it is empty, and nothing is stated about the loop through it.
\<close>

datatype scanEvent = Matched int | Unmatched byte

function scanEvents :: "checksumMap \<Rightarrow> buffer \<Rightarrow> int \<Rightarrow> int \<Rightarrow> scanEvent list" where
  "scanEvents checksumMap targetData chunkSizeBytes targetPosition =
     (if 0 < chunkSizeBytes \<and> 0 \<le> targetPosition \<and> targetPosition < int (length targetData)
      then (case (if targetPosition \<le> int (length targetData) - chunkSizeBytes
                  then matchWindow checksumMap
                         (subarray targetData targetPosition (targetPosition + chunkSizeBytes))
                  else None) of
              Some originalChecksum \<Rightarrow>
                Matched (index originalChecksum) #
                scanEvents checksumMap targetData chunkSizeBytes (targetPosition + chunkSizeBytes)
            | None \<Rightarrow>
                Unmatched (targetData ! nat targetPosition) #
                scanEvents checksumMap targetData chunkSizeBytes (targetPosition + 1))
      else [])"
  by pat_completeness auto
termination
  by (relation "measure (\<lambda>(m, t, c, p). nat (int (length t) - p))") auto

text \<open>
  The specification's coalescing, in its own words: every maximal run of consecutive
  non-matching bytes becomes one \<open>Literal\<close> holding exactly those bytes in order, and
  every match becomes one \<open>CopyRef\<close>. \<open>unmatchedRun\<close> is the run of differing bytes
  a list of decisions starts with, \<open>afterRun\<close> what follows that run.
\<close>

fun unmatchedRun :: "scanEvent list \<Rightarrow> buffer" where
  "unmatchedRun (Unmatched b # es) = b # unmatchedRun es"
| "unmatchedRun es = []"

fun afterRun :: "scanEvent list \<Rightarrow> scanEvent list" where
  "afterRun (Unmatched b # es) = afterRun es"
| "afterRun es = es"

lemma length_afterRun: "length (afterRun es) \<le> length es"
  by (induction es rule: afterRun.induct) auto

function coalesce :: "scanEvent list \<Rightarrow> instruction list" where
  "coalesce [] = []"
| "coalesce (Matched n # es) = CopyRef n # coalesce es"
| "coalesce (Unmatched b # es) =
     Literal (unmatchedRun (Unmatched b # es)) # coalesce (afterRun (Unmatched b # es))"
  by pat_completeness auto
termination
  by (relation "measure length") (auto simp: less_Suc_eq_le length_afterRun)

text \<open>A pending run of differing bytes in front of a list of decisions.\<close>

definition withPending :: "buffer \<Rightarrow> scanEvent list \<Rightarrow> instruction list" where
  "withPending acc es =
     (if acc @ unmatchedRun es = [] then coalesce es
      else Literal (acc @ unmatchedRun es) # coalesce (afterRun es))"

text \<open>The bytes an instruction contributes to the rebuilt buffer.\<close>

fun instructionBytes :: "buffer list \<Rightarrow> instruction \<Rightarrow> buffer" where
  "instructionBytes originalChunks (CopyRef n) = originalChunks ! nat n"
| "instructionBytes originalChunks (Literal bytes) = bytes"

text \<open>No two \<open>Literal\<close> instructions stand next to each other.\<close>

fun literalsApart :: "instruction list \<Rightarrow> bool" where
  "literalsApart (Literal a # Literal b # r) = False"
| "literalsApart (x # r) = literalsApart r"
| "literalsApart [] = True"

text \<open>The bytes a decision stands for, given the chunks of the original.\<close>

fun eventBytes :: "buffer list \<Rightarrow> scanEvent \<Rightarrow> buffer" where
  "eventBytes chunks (Matched n) = chunks ! nat n"
| "eventBytes chunks (Unmatched b) = [b]"

text \<open>
  The windows of the target the scan can look at, and a collision: two different byte
  sequences with the same weak and the same strong checksum.
\<close>

definition targetWindows :: "buffer \<Rightarrow> int \<Rightarrow> buffer list" where
  "targetWindows targetData chunkSizeBytes =
     map (\<lambda>p. subarray targetData p (p + chunkSizeBytes))
       [0..int (length targetData) - chunkSizeBytes]"

definition checksumCollision :: "buffer \<Rightarrow> buffer \<Rightarrow> bool" where
  "checksumCollision a b \<longleftrightarrow>
     a \<noteq> b \<and> calculateWeakBlockChecksum a = calculateWeakBlockChecksum b
           \<and> calculateStrongBlockChecksum a = calculateStrongBlockChecksum b"

section \<open>The scan in the words of the specification\<close>

text \<open>
  The matching rule as the specification states it: a window matches when its weak
  checksum is a key of the index and the entry stored there has the window's strong
  checksum.
\<close>

definition windowMatches :: "checksumMap \<Rightarrow> buffer \<Rightarrow> bool" where
  "windowMatches checksumMap windowBuffer \<longleftrightarrow>
     calculateWeakBlockChecksum windowBuffer \<in> dom checksumMap \<and>
     strong (the (checksumMap (calculateWeakBlockChecksum windowBuffer))) =
       calculateStrongBlockChecksum windowBuffer"

text \<open>
  The cursor as the specification moves it, for a positive chunk size: from a position
  inside the target it goes forward by the chunk size when a whole window fits there and
  matches, and by one otherwise. \<open>cursorSteps\<close> lists the positions visited from
  \<open>pos\<close> on, each with that decision. It is defined without reference to the loops.
\<close>

function cursorSteps :: "checksumMap \<Rightarrow> buffer \<Rightarrow> int \<Rightarrow> int \<Rightarrow> (int \<times> bool) list" where
  "cursorSteps checksumMap targetData chunkSizeBytes pos =
     (if 0 < chunkSizeBytes \<and> 0 \<le> pos \<and> pos < int (length targetData)
      then (let matched = (pos \<le> int (length targetData) - chunkSizeBytes \<and>
                           windowMatches checksumMap
                             (subarray targetData pos (pos + chunkSizeBytes)))
            in (pos, matched) #
               cursorSteps checksumMap targetData chunkSizeBytes
                 (if matched then pos + chunkSizeBytes else pos + 1))
      else [])"
  by pat_completeness auto
termination
  by (relation "measure (\<lambda>(m, t, c, p). nat (int (length t) - p))") auto

text \<open>
  What a step contributes: the index stored under the window's weak checksum for a match,
  the byte under the cursor otherwise.
\<close>

definition stepEvent :: "checksumMap \<Rightarrow> buffer \<Rightarrow> int \<Rightarrow> int \<times> bool \<Rightarrow> scanEvent" where
  "stepEvent checksumMap targetData chunkSizeBytes step =
     (if snd step
      then Matched (index (the (checksumMap (calculateWeakBlockChecksum
             (subarray targetData (fst step) (fst step + chunkSizeBytes))))))
      else Unmatched (targetData ! nat (fst step)))"

text \<open>
  The position of the last chunk whose weak checksum is that of \<open>c\<close>: the chunk that
  owns the index entry for that checksum, later chunks replacing earlier ones.
\<close>

definition lastWeakIndex :: "buffer list \<Rightarrow> buffer \<Rightarrow> nat" where
  "lastWeakIndex chunks c =
     last (filter (\<lambda>i. calculateWeakBlockChecksum (chunks ! i) = calculateWeakBlockChecksum c)
             [0..<length chunks])"

section \<open>Views of a buffer\<close>

lemma subarray_nonneg:
  "0 \<le> s \<Longrightarrow> s \<le> e \<Longrightarrow> subarray buf s e = take (nat (e - s)) (drop (nat s) buf)"
  by (auto simp: subarray_def relativeIndex_def Let_def min_def)

lemma subarray_single:
  "0 \<le> p \<Longrightarrow> p < int (length buf) \<Longrightarrow> subarray buf p (p + 1) = [buf ! nat p]"
  by (simp add: subarray_nonneg take_Suc_conv_app_nth hd_drop_conv_nth take_Suc)

section \<open>The chunker computes the blocks of the buffer\<close>

lemma blocksOf_step:
  "0 < n \<Longrightarrow> xs \<noteq> [] \<Longrightarrow> blocksOf n xs = take n xs # blocksOf n (drop n xs)"
  by (cases xs) simp_all

lemma concat_blocksOf: "0 < n \<Longrightarrow> concat (blocksOf n xs) = xs"
  by (induction n xs rule: blocksOf.induct)
    (simp_all del: take_Suc_Cons drop_Suc_Cons add: Let_def)

lemma blocksOf_nth:
  "0 < n \<Longrightarrow> k * n < length xs \<Longrightarrow> blocksOf n xs ! k = take n (drop (k * n) xs)"
proof (induction k arbitrary: xs)
  case 0
  then show ?case by (simp add: blocksOf_step)
next
  case (Suc k)
  then have ne: "xs \<noteq> []" by auto
  have "k * n < length (drop n xs)" using Suc.prems by simp
  then have "blocksOf n (drop n xs) ! k = take n (drop (k * n) (drop n xs))"
    using Suc.IH Suc.prems(1) by blast
  then show ?case using Suc.prems ne by (simp add: blocksOf_step add.commute)
qed

lemma ceil_div_step:
  fixes n l :: nat
  assumes "0 < n" "n \<le> l"
  shows "(l + n - 1) div n = Suc ((l - n + n - 1) div n)"
proof -
  define m where "m = l - n + n - 1"
  have "l + n - 1 = m + n" using assms by (simp add: m_def)
  moreover have "(m + n) div n = Suc (m div n)"
    using assms(1) div_add_self2 [of n m] by simp
  ultimately show ?thesis by (simp add: m_def)
qed

lemma ceil_div_small:
  fixes n l :: nat
  shows "0 < l \<Longrightarrow> l < n \<Longrightarrow> (l + n - 1) div n = 1"
  by (rule div_nat_eqI) arith+

lemma length_blocksOf: "0 < n \<Longrightarrow> length (blocksOf n xs) = (length xs + n - 1) div n"
proof (induction n xs rule: blocksOf.induct)
  case (1 n)
  then show ?case by simp
next
  case (2 n x xs)
  let ?ys = "x # xs"
  have IH: "length (blocksOf n (drop n ?ys)) = (length (drop n ?ys) + n - 1) div n"
    using 2 by simp
  have unf: "blocksOf n ?ys = take n ?ys # blocksOf n (drop n ?ys)"
    using 2(2) by (simp del: take_Suc_Cons drop_Suc_Cons)
  show ?case
  proof (cases "n \<le> length ?ys")
    case True
    have "length (blocksOf n ?ys) = Suc ((length ?ys - n + n - 1) div n)"
      unfolding unf using IH by simp
    then show ?thesis using ceil_div_step [OF 2(2) True] by simp
  next
    case False
    then have "drop n ?ys = []" by simp
    then have "length (blocksOf n ?ys) = 1" unfolding unf by simp
    moreover have "(length ?ys + n - 1) div n = 1"
      by (rule ceil_div_small) (use False in auto)
    ultimately show ?thesis by simp
  qed
qed

lemma ceil_div_nat:
  fixes l n :: nat
  assumes n: "0 < n"
  shows "\<lceil>real l / real n\<rceil> = int ((l + n - 1) div n)"
proof (rule ceiling_unique)
  define q where "q = (l + n - 1) div n"
  have lo: "q * n \<le> l + n - 1" unfolding q_def by simp
  have hi: "l + n - 1 < q * n + n"
    unfolding q_def using n dividend_less_div_times [of n "l + n - 1"] by (simp add: ac_simps)
  have a: "q * n < l + n" using lo n by arith
  have b: "l \<le> q * n" using hi n by arith
  have "real q * real n < real l + real n"
    using a by (metis of_nat_add of_nat_less_iff of_nat_mult)
  then have "(real q - 1) * real n < real l" by (simp add: algebra_simps)
  then show "of_int (int ((l + n - 1) div n)) - 1 < real l / real n"
    using n by (simp add: q_def pos_less_divide_eq)
  have "real l \<le> real q * real n"
    using b by (metis of_nat_le_iff of_nat_mult)
  then show "real l / real n \<le> of_int (int ((l + n - 1) div n))"
    using n by (simp add: q_def pos_divide_le_eq)
qed

lemma blocksOf_index_bound:
  assumes "0 < n" "k < length (blocksOf n xs)"
  shows "k * n < length xs"
proof -
  define q where "q = (length xs + n - 1) div n"
  have "Suc k \<le> q" using assms by (simp add: q_def length_blocksOf)
  moreover have "q * n \<le> length xs + n - 1" unfolding q_def by simp
  ultimately have "Suc k * n \<le> length xs + n - 1"
    by (meson mult_le_mono1 order_trans)
  then show ?thesis using assms(1) by simp
qed

lemma blocksOf_full_block:
  assumes "0 < n" "Suc k < length (blocksOf n xs)"
  shows "length (blocksOf n xs ! k) = n"
proof -
  have "Suc k * n < length xs" using assms by (rule blocksOf_index_bound)
  then have "k * n < length xs" "n \<le> length xs - k * n" by simp_all
  then show ?thesis using assms(1) by (simp add: blocksOf_nth)
qed

lemma blocksOf_last_block:
  assumes "0 < n" "xs \<noteq> []"
  shows "length (last (blocksOf n xs)) =
         (if length xs mod n = 0 then n else length xs mod n)"
proof -
  define q where "q = length (blocksOf n xs)"
  have q: "q = (length xs + n - 1) div n" by (simp add: q_def length_blocksOf assms(1))
  have ne: "blocksOf n xs \<noteq> []" using assms by (simp add: blocksOf_step)
  then have qpos: "0 < q" by (simp add: q_def)
  have bound: "(q - 1) * n < length xs"
    using assms(1) qpos by (intro blocksOf_index_bound) (simp_all add: q_def)
  have "last (blocksOf n xs) = blocksOf n xs ! (q - 1)"
    using ne by (simp add: last_conv_nth q_def)
  then have len: "length (last (blocksOf n xs)) = min n (length xs - (q - 1) * n)"
    using bound assms(1) by (simp add: blocksOf_nth min.commute)
  have lo: "q * n \<le> length xs + n - 1" unfolding q by simp
  have hi: "length xs + n - 1 < q * n + n"
    unfolding q using assms(1) dividend_less_div_times [of n "length xs + n - 1"]
    by (simp add: ac_simps)
  have qn: "q * n = (q - 1) * n + n" using qpos by (cases q) simp_all
  show ?thesis
  proof (cases "length xs mod n = 0")
    case True
    define c where "c = length xs div n"
    have c: "length xs = c * n"
      using True div_mult_mod_eq [of "length xs" n] by (simp add: c_def)
    have "c = q"
    proof (rule ccontr)
      assume "c \<noteq> q"
      then consider "c < q" | "q < c" by arith
      then show False
      proof cases
        case 1
        then have "Suc c \<le> q" by simp
        then have "Suc c * n \<le> q * n" by (rule mult_le_mono1)
        then show False using lo c assms(1) by simp
      next
        case 2
        then have "Suc q \<le> c" by simp
        then have "Suc q * n \<le> c * n" by (rule mult_le_mono1)
        then show False using hi c assms(1) by simp
      qed
    qed
    then have "length xs - (q - 1) * n = n" using c qn by simp
    then show ?thesis using True len by simp
  next
    case False
    have "q - 1 = length xs div n"
    proof (rule sym, rule div_nat_eqI)
      show "n * (q - 1) \<le> length xs" using bound by (simp add: mult.commute)
      have "length xs \<noteq> q * n" using False by auto
      then have "length xs < q * n" using hi assms(1) by arith
      then show "length xs < n * Suc (q - 1)" using qn by (simp add: mult.commute)
    qed
    then have "length xs - (q - 1) * n = length xs mod n"
      by (simp add: minus_div_mult_eq_mod)
    moreover have "length xs mod n < n" using assms(1) by simp
    ultimately show ?thesis using False len by simp
  qed
qed

lemma divideLoop_eq:
  "0 < cs \<Longrightarrow> 0 \<le> i \<Longrightarrow>
   divideLoop file cs i chunks = Some (chunks @ blocksOf (nat cs) (drop (nat i) file))"
proof (induction "length file - nat i" arbitrary: i chunks rule: less_induct)
  case less
  show ?case
  proof (cases "i < int (length file)")
    case True
    have ne: "drop (nat i) file \<noteq> []" using True less.prems by simp
    have "divideLoop file cs i chunks =
          divideLoop file cs (i + cs) (chunks @ [subarray file i (i + cs)])"
      using True by (subst divideLoop.simps) simp
    also have "\<dots> = Some ((chunks @ [subarray file i (i + cs)]) @
                      blocksOf (nat cs) (drop (nat (i + cs)) file))"
      by (rule less.hyps) (use True less.prems in auto)
    also have "drop (nat (i + cs)) file = drop (nat cs) (drop (nat i) file)"
      using less.prems by (simp add: nat_add_distrib add.commute)
    finally show ?thesis
      using less.prems ne by (simp add: blocksOf_step subarray_nonneg)
  next
    case False
    then have "drop (nat i) file = []" using less.prems by simp
    then show ?thesis using False by (subst divideLoop.simps) simp
  qed
qed

lemma divideToChunks_eq:
  "0 < cs \<Longrightarrow> divideToChunks file cs = Some (blocksOf (nat cs) file)"
  by (simp add: divideToChunks_def divideLoop_eq)

section \<open>The checksum index\<close>

lemma setChecksum_apply:
  "setChecksum i c m k =
     (if k = calculateWeakBlockChecksum c
      then Some \<lparr>index = int i, strong = calculateStrongBlockChecksum c\<rparr> else m k)"
  by (simp add: setChecksum_def)

lemma indexFold_entry:
  "fold (\<lambda>(i, chunk). setChecksum i chunk) (enumerate n chunks) m0 k = Some e \<Longrightarrow>
   m0 k = Some e \<or>
   (\<exists>i < length chunks. e = \<lparr>index = int (n + i),
        strong = calculateStrongBlockChecksum (chunks ! i)\<rparr> \<and>
      k = calculateWeakBlockChecksum (chunks ! i))"
proof (induction chunks arbitrary: n m0)
  case Nil
  then show ?case by simp
next
  case (Cons c cs)
  from Cons.prems
  have "fold (\<lambda>(i, chunk). setChecksum i chunk) (enumerate (Suc n) cs) (setChecksum n c m0) k
        = Some e"
    by simp
  from Cons.IH [OF this] show ?case
  proof
    assume "setChecksum n c m0 k = Some e"
    then have "m0 k = Some e \<or> (e = \<lparr>index = int n, strong = calculateStrongBlockChecksum c\<rparr>
        \<and> k = calculateWeakBlockChecksum c)"
      by (auto simp: setChecksum_apply split: if_splits)
    then show ?thesis by auto
  next
    assume "\<exists>i<length cs. e = \<lparr>index = int (Suc n + i),
        strong = calculateStrongBlockChecksum (cs ! i)\<rparr> \<and>
      k = calculateWeakBlockChecksum (cs ! i)"
    then obtain i where "i < length cs" "e = \<lparr>index = int (Suc n + i),
        strong = calculateStrongBlockChecksum (cs ! i)\<rparr>"
      "k = calculateWeakBlockChecksum (cs ! i)" by blast
    then have "Suc i < length (c # cs) \<and> e = \<lparr>index = int (n + Suc i),
        strong = calculateStrongBlockChecksum ((c # cs) ! Suc i)\<rparr> \<and>
      k = calculateWeakBlockChecksum ((c # cs) ! Suc i)" by simp
    then show ?thesis by blast
  qed
qed

lemma indexFold_dom:
  "m0 k \<noteq> None \<or> k \<in> calculateWeakBlockChecksum ` set chunks \<Longrightarrow>
   fold (\<lambda>(i, chunk). setChecksum i chunk) (enumerate n chunks) m0 k \<noteq> None"
proof (induction chunks arbitrary: n m0)
  case Nil
  then show ?case by simp
next
  case (Cons c cs)
  have "setChecksum n c m0 k \<noteq> None \<or> k \<in> calculateWeakBlockChecksum ` set cs"
    using Cons.prems by (auto simp: setChecksum_apply)
  then have "fold (\<lambda>(i, chunk). setChecksum i chunk) (enumerate (Suc n) cs)
               (setChecksum n c m0) k \<noteq> None"
    by (rule Cons.IH)
  then show ?case by simp
qed

lemma buildChecksumMap_entry:
  assumes "buildChecksumMap chunks k = Some e"
  shows "\<exists>i < length chunks. e = \<lparr>index = int i,
        strong = calculateStrongBlockChecksum (chunks ! i)\<rparr> \<and>
      k = calculateWeakBlockChecksum (chunks ! i)"
  using indexFold_entry [of 0 chunks Map.empty k e] assms
  by (simp add: buildChecksumMap_def)

lemma buildChecksumMap_dom:
  "c \<in> set chunks \<Longrightarrow> buildChecksumMap chunks (calculateWeakBlockChecksum c) \<noteq> None"
  using indexFold_dom [of Map.empty "calculateWeakBlockChecksum c" chunks 0]
  by (simp add: buildChecksumMap_def)

lemma matchWindow_Some:
  "matchWindow m w = Some e \<longleftrightarrow>
   m (calculateWeakBlockChecksum w) = Some e \<and> strong e = calculateStrongBlockChecksum w"
  by (auto simp: matchWindow_def Let_def split: option.splits)

lemma matchWindow_build:
  assumes "matchWindow (buildChecksumMap chunks) w = Some e"
  shows "\<exists>i < length chunks. index e = int i \<and>
     calculateWeakBlockChecksum (chunks ! i) = calculateWeakBlockChecksum w \<and>
     calculateStrongBlockChecksum (chunks ! i) = calculateStrongBlockChecksum w"
proof -
  from assms have m: "buildChecksumMap chunks (calculateWeakBlockChecksum w) = Some e"
    and s: "strong e = calculateStrongBlockChecksum w"
    by (simp_all add: matchWindow_Some)
  from buildChecksumMap_entry [OF m] s show ?thesis by auto
qed

section \<open>The instruction loop coalesces the decisions of the scan\<close>

declare scanEvents.simps [simp del]

lemma withPending_Nil [simp]: "withPending [] es = coalesce es"
  by (cases es rule: afterRun.cases) (simp_all add: withPending_def)

lemma withPending_end: "withPending acc [] = (if acc = [] then [] else [Literal acc])"
  by (simp add: withPending_def)

lemma withPending_Matched:
  "withPending acc (Matched n # es) =
     (if acc = [] then [] else [Literal acc]) @ CopyRef n # coalesce es"
  by (simp add: withPending_def)

lemma withPending_Unmatched:
  "withPending acc (Unmatched b # es) = withPending (acc @ [b]) es"
  by (simp add: withPending_def)

lemma flushDiffering_singletons:
  "flushDiffering (map (\<lambda>b. [b]) acc) instrs =
     instrs @ (if acc = [] then [] else [Literal acc])"
  by (simp add: flushDiffering_def concat_map_singleton)

lemma generateLoop_eq:
  "0 < cs \<Longrightarrow> 0 \<le> pos \<Longrightarrow>
   generateLoop m t cs pos (map (\<lambda>b. [b]) acc) instrs =
     Some (instrs @ withPending acc (scanEvents m t cs pos))"
proof (induction "nat (int (length t) - pos)" arbitrary: pos acc instrs rule: less_induct)
  case less
  let ?w = "if pos \<le> int (length t) - cs then matchWindow m (subarray t pos (pos + cs)) else None"
  show ?case
  proof (cases "pos < int (length t)")
    case False
    then have "scanEvents m t cs pos = []" by (simp add: scanEvents.simps)
    moreover have "generateLoop m t cs pos (map (\<lambda>b. [b]) acc) instrs =
                   Some (flushDiffering (map (\<lambda>b. [b]) acc) instrs)"
      using False by (subst generateLoop.simps) simp
    ultimately show ?thesis by (simp add: flushDiffering_singletons withPending_end)
  next
    case True
    note inr = True less.prems
    show ?thesis
    proof (cases ?w)
      case None
      have ev: "scanEvents m t cs pos = Unmatched (t ! nat pos) # scanEvents m t cs (pos + 1)"
        using inr None by (subst scanEvents.simps) simp
      have "generateLoop m t cs pos (map (\<lambda>b. [b]) acc) instrs =
            generateLoop m t cs (pos + 1)
              (map (\<lambda>b. [b]) acc @ [subarray t pos (pos + 1)]) instrs"
        using inr None by (subst generateLoop.simps) simp
      also have "map (\<lambda>b. [b]) acc @ [subarray t pos (pos + 1)] =
                 map (\<lambda>b. [b]) (acc @ [t ! nat pos])"
        using inr by (simp add: subarray_single)
      also have "generateLoop m t cs (pos + 1) (map (\<lambda>b. [b]) (acc @ [t ! nat pos])) instrs =
                 Some (instrs @ withPending (acc @ [t ! nat pos]) (scanEvents m t cs (pos + 1)))"
        using inr by (intro less.hyps) simp_all
      finally show ?thesis by (simp add: ev withPending_Unmatched)
    next
      case (Some e)
      have ev: "scanEvents m t cs pos = Matched (index e) # scanEvents m t cs (pos + cs)"
        using inr Some by (subst scanEvents.simps) simp
      have "generateLoop m t cs pos (map (\<lambda>b. [b]) acc) instrs =
            generateLoop m t cs (pos + cs)
              (if length (map (\<lambda>b. [b]) acc) > 0 then [] else map (\<lambda>b. [b]) acc)
              (flushDiffering (map (\<lambda>b. [b]) acc) instrs @ [CopyRef (index e)])"
        using inr Some by (subst generateLoop.simps) simp
      also have "(if length (map (\<lambda>b. [b]) acc) > 0 then [] else map (\<lambda>b. [b]) acc) =
                 map (\<lambda>b. [b]) ([] :: buffer)"
        by simp
      also have "generateLoop m t cs (pos + cs) (map (\<lambda>b. [b]) ([] :: buffer))
                   (flushDiffering (map (\<lambda>b. [b]) acc) instrs @ [CopyRef (index e)]) =
                 Some ((flushDiffering (map (\<lambda>b. [b]) acc) instrs @ [CopyRef (index e)]) @
                       withPending [] (scanEvents m t cs (pos + cs)))"
        using inr by (intro less.hyps) simp_all
      finally show ?thesis
        by (simp add: ev withPending_Matched flushDiffering_singletons)
    qed
  qed
qed

lemma generateInstructions_eq:
  "0 < cs \<Longrightarrow>
   generateInstructions original target cs =
     Some (coalesce (scanEvents (buildChecksumMap (blocksOf (nat cs) original)) target cs 0))"
  using generateLoop_eq [of cs 0 _ target "[]" "[]"]
  by (simp add: generateInstructions_def divideToChunks_eq)

section \<open>What the decisions of the scan stand for\<close>

lemma eventBytes_run:
  "concat (map (eventBytes c) es) = unmatchedRun es @ concat (map (eventBytes c) (afterRun es))"
  by (induction es rule: afterRun.induct) simp_all

lemma set_afterRun: "set (afterRun es) \<subseteq> set es"
  by (induction es rule: afterRun.induct) auto

lemma afterRun_head: "afterRun es = [] \<or> (\<exists>n r. afterRun es = Matched n # r)"
  by (induction es rule: afterRun.induct) auto

lemma bufferConcat_Nil: "bufferConcat [] = Inr []"
  by (simp add: bufferConcat_def)

lemma bufferConcat_Some:
  "bufferConcat (Some b # xs) =
     (case bufferConcat xs of Inl e \<Rightarrow> Inl e | Inr r \<Rightarrow> Inr (b @ r))"
  by (simp add: bufferConcat_def)

lemma bufferConcat_None: "None \<in> set xs \<Longrightarrow> bufferConcat xs = Inl TypeError"
  by (simp add: bufferConcat_def)

lemma rebuildStep_simps:
  "rebuildStep chunks (Literal x) = Some x"
  "0 \<le> n \<Longrightarrow> n < int (length chunks) \<Longrightarrow> rebuildStep chunks (CopyRef n) = Some (chunks ! nat n)"
  "\<not> (0 \<le> n \<and> n < int (length chunks)) \<Longrightarrow> rebuildStep chunks (CopyRef n) = None"
  by (simp_all add: rebuildStep_def arrayGet_def)

lemma rebuild_coalesce:
  "(\<forall>n. Matched n \<in> set es \<longrightarrow> 0 \<le> n \<and> n < int (length chunks)) \<Longrightarrow>
   bufferConcat (map (rebuildStep chunks) (coalesce es)) =
     Inr (concat (map (eventBytes chunks) es))"
proof (induction es rule: coalesce.induct)
  case 1
  then show ?case by (simp add: bufferConcat_Nil)
next
  case (2 n es)
  then show ?case by (simp add: rebuildStep_simps bufferConcat_Some)
next
  case (3 b es)
  have "\<forall>n. Matched n \<in> set (afterRun (Unmatched b # es)) \<longrightarrow> 0 \<le> n \<and> n < int (length chunks)"
    using 3(2) set_afterRun [of "Unmatched b # es"] by blast
  then have "bufferConcat (map (rebuildStep chunks) (coalesce (afterRun (Unmatched b # es)))) =
     Inr (concat (map (eventBytes chunks) (afterRun (Unmatched b # es))))"
    by (rule 3(1))
  then show ?case
    using eventBytes_run [of chunks "Unmatched b # es"]
    by (simp add: rebuildStep_simps bufferConcat_Some del: afterRun.simps unmatchedRun.simps)
qed

lemma scanEvents_Matched:
  "Matched n \<in> set (scanEvents m t cs pos) \<Longrightarrow>
   \<exists>p e. 0 \<le> p \<and> p \<le> int (length t) - cs \<and>
         matchWindow m (subarray t p (p + cs)) = Some e \<and> index e = n"
proof (induction "nat (int (length t) - pos)" arbitrary: pos rule: less_induct)
  case less
  let ?w = "if pos \<le> int (length t) - cs then matchWindow m (subarray t pos (pos + cs)) else None"
  have inr: "0 < cs" "0 \<le> pos" "pos < int (length t)"
    using less.prems by (auto simp: scanEvents.simps [of m t cs pos] split: if_splits)
  show ?case
  proof (cases ?w)
    case None
    then have "scanEvents m t cs pos = Unmatched (t ! nat pos) # scanEvents m t cs (pos + 1)"
      using inr by (subst scanEvents.simps) simp
    then have "Matched n \<in> set (scanEvents m t cs (pos + 1))" using less.prems by simp
    then show ?thesis using inr by (intro less.hyps) simp_all
  next
    case (Some e)
    then have fit: "pos \<le> int (length t) - cs"
      and mw: "matchWindow m (subarray t pos (pos + cs)) = Some e"
      by (simp_all split: if_splits)
    have "scanEvents m t cs pos = Matched (index e) # scanEvents m t cs (pos + cs)"
      using inr Some by (subst scanEvents.simps) simp
    then consider "n = index e" | "Matched n \<in> set (scanEvents m t cs (pos + cs))"
      using less.prems by auto
    then show ?thesis
    proof cases
      case 1
      then show ?thesis using inr fit mw by blast
    next
      case 2
      then show ?thesis using inr by (intro less.hyps) simp_all
    qed
  qed
qed

lemma scanEvents_bytes:
  assumes sound: "\<And>p e. 0 \<le> p \<Longrightarrow> p \<le> int (length t) - cs \<Longrightarrow>
            matchWindow m (subarray t p (p + cs)) = Some e \<Longrightarrow>
            chunks ! nat (index e) = subarray t p (p + cs)"
  shows "0 < cs \<Longrightarrow> 0 \<le> pos \<Longrightarrow>
         concat (map (eventBytes chunks) (scanEvents m t cs pos)) = drop (nat pos) t"
proof (induction "nat (int (length t) - pos)" arbitrary: pos rule: less_induct)
  case less
  let ?w = "if pos \<le> int (length t) - cs then matchWindow m (subarray t pos (pos + cs)) else None"
  show ?case
  proof (cases "pos < int (length t)")
    case False
    then show ?thesis using less.prems by (simp add: scanEvents.simps)
  next
    case True
    note inr = less.prems True
    show ?thesis
    proof (cases ?w)
      case None
      then have ev: "scanEvents m t cs pos = Unmatched (t ! nat pos) # scanEvents m t cs (pos + 1)"
        using inr by (subst scanEvents.simps) simp
      have "concat (map (eventBytes chunks) (scanEvents m t cs (pos + 1))) = drop (nat (pos + 1)) t"
        using inr by (intro less.hyps) simp_all
      moreover have "drop (nat pos) t = t ! nat pos # drop (nat (pos + 1)) t"
        using inr by (simp add: Cons_nth_drop_Suc nat_add_distrib)
      ultimately show ?thesis by (simp add: ev)
    next
      case (Some e)
      then have fit: "pos \<le> int (length t) - cs"
        and mw: "matchWindow m (subarray t pos (pos + cs)) = Some e"
        by (simp_all split: if_splits)
      have ev: "scanEvents m t cs pos = Matched (index e) # scanEvents m t cs (pos + cs)"
        using inr Some by (subst scanEvents.simps) simp
      have "concat (map (eventBytes chunks) (scanEvents m t cs (pos + cs))) = drop (nat (pos + cs)) t"
        using inr by (intro less.hyps) simp_all
      moreover have "chunks ! nat (index e) = take (nat cs) (drop (nat pos) t)"
        using sound [OF inr(2) fit mw] inr by (simp add: subarray_nonneg)
      moreover have "drop (nat (pos + cs)) t = drop (nat cs) (drop (nat pos) t)"
        using inr by (simp add: nat_add_distrib add.commute)
      ultimately have "concat (map (eventBytes chunks) (scanEvents m t cs pos)) =
            take (nat cs) (drop (nat pos) t) @ drop (nat cs) (drop (nat pos) t)"
        by (simp only: ev list.map concat.simps eventBytes.simps)
      then show ?thesis by (simp only: append_take_drop_id)
    qed
  qed
qed

lemma targetWindows_mem:
  "0 \<le> p \<Longrightarrow> p \<le> int (length t) - cs \<Longrightarrow> subarray t p (p + cs) \<in> set (targetWindows t cs)"
  by (auto simp: targetWindows_def)

lemma scanEvents_index_range:
  assumes "Matched n \<in> set (scanEvents (buildChecksumMap chunks) t cs pos)"
  shows "0 \<le> n \<and> n < int (length chunks)"
proof -
  from scanEvents_Matched [OF assms] obtain p e where
    "matchWindow (buildChecksumMap chunks) (subarray t p (p + cs)) = Some e" "index e = n"
    by blast
  with matchWindow_build show ?thesis by force
qed

lemma coalesce_CopyRef: "CopyRef n \<in> set (coalesce es) \<Longrightarrow> Matched n \<in> set es"
proof (induction es rule: coalesce.induct)
  case (3 b es)
  then have "CopyRef n \<in> set (coalesce (afterRun (Unmatched b # es)))" by simp
  then have "Matched n \<in> set (afterRun (Unmatched b # es))" by (rule 3(1))
  then show ?case using set_afterRun [of "Unmatched b # es"] by blast
qed auto

lemma coalesce_Literal: "Literal b \<in> set (coalesce es) \<Longrightarrow> b \<noteq> []"
  by (induction es rule: coalesce.induct) auto

lemma scanEvents_tail:
  "0 < cs \<Longrightarrow> 0 \<le> pos \<Longrightarrow> int (length t) - cs < pos \<Longrightarrow>
   scanEvents m t cs pos = map Unmatched (drop (nat pos) t)"
proof (induction "nat (int (length t) - pos)" arbitrary: pos rule: less_induct)
  case less
  show ?case
  proof (cases "pos < int (length t)")
    case False
    then show ?thesis using less.prems by (simp add: scanEvents.simps)
  next
    case True
    have "scanEvents m t cs pos = Unmatched (t ! nat pos) # scanEvents m t cs (pos + 1)"
      using less.prems True by (subst scanEvents.simps) simp
    moreover have "scanEvents m t cs (pos + 1) = map Unmatched (drop (nat (pos + 1)) t)"
      using less.prems True by (intro less.hyps) simp_all
    moreover have "drop (nat pos) t = t ! nat pos # drop (nat (pos + 1)) t"
      using less.prems True by (simp add: Cons_nth_drop_Suc nat_add_distrib)
    ultimately show ?thesis by simp
  qed
qed

lemma unmatchedRun_map: "unmatchedRun (map Unmatched xs @ es) = xs @ unmatchedRun es"
  by (induction xs) simp_all

lemma afterRun_map: "afterRun (map Unmatched xs @ es) = afterRun es"
  by (induction xs) simp_all

lemma coalesce_map_Unmatched:
  "coalesce (map Unmatched xs) = (if xs = [] then [] else [Literal xs])"
proof (cases xs)
  case Nil
  then show ?thesis by simp
next
  case (Cons x xs')
  have "unmatchedRun (map Unmatched xs) = xs"
    using unmatchedRun_map [of xs "[]"] by simp
  then have r: "unmatchedRun (Unmatched x # map Unmatched xs') = xs"
    by (simp only: Cons list.map)
  have "afterRun (map Unmatched xs) = []"
    using afterRun_map [of xs "[]"] by simp
  then have a: "afterRun (Unmatched x # map Unmatched xs') = []"
    by (simp only: Cons list.map)
  have "coalesce (map Unmatched xs) = coalesce (Unmatched x # map Unmatched xs')"
    by (simp only: Cons list.map)
  also have "\<dots> = [Literal xs]"
    by (simp only: coalesce.simps r a)
  finally show ?thesis using Cons by simp
qed

lemma literalsApart_coalesce: "literalsApart (coalesce es)"
proof (induction es rule: coalesce.induct)
  case (3 b es)
  from afterRun_head [of "Unmatched b # es"]
  have "coalesce (afterRun (Unmatched b # es)) = [] \<or>
        (\<exists>n r. coalesce (afterRun (Unmatched b # es)) = CopyRef n # r)"
    by (auto simp del: afterRun.simps)
  then show ?case using 3 by (auto simp del: afterRun.simps unmatchedRun.simps)
qed simp_all

lemma literalsApart_nth:
  "literalsApart xs \<Longrightarrow> Suc k < length xs \<Longrightarrow> xs ! k = Literal a \<Longrightarrow> xs ! Suc k \<noteq> Literal b"
  by (induction xs arbitrary: k rule: literalsApart.induct)
    (auto simp: nth_Cons split: nat.splits)

section \<open>Rebuilding from any instruction sequence\<close>

lemma bufferConcat_in_range:
  "(\<forall>n. CopyRef n \<in> set instrs \<longrightarrow> 0 \<le> n \<and> n < int (length chunks)) \<Longrightarrow>
   bufferConcat (map (rebuildStep chunks) instrs) =
     Inr (concat (map (instructionBytes chunks) instrs))"
proof (induction instrs)
  case Nil
  then show ?case by (simp add: bufferConcat_Nil)
next
  case (Cons i instrs)
  then have IH: "bufferConcat (map (rebuildStep chunks) instrs) =
     Inr (concat (map (instructionBytes chunks) instrs))" by simp
  show ?case
  proof (cases i)
    case (CopyRef n)
    then have "0 \<le> n \<and> n < int (length chunks)" using Cons.prems by simp
    then show ?thesis
      using IH CopyRef by (simp add: rebuildStep_simps bufferConcat_Some)
  next
    case (Literal b)
    then show ?thesis
      using IH by (simp add: rebuildStep_simps bufferConcat_Some)
  qed
qed

lemma bufferConcat_out_of_range:
  assumes "CopyRef n \<in> set instrs" "int (length chunks) \<le> n"
  shows "bufferConcat (map (rebuildStep chunks) instrs) = Inl TypeError"
proof -
  have "rebuildStep chunks (CopyRef n) = None" using assms(2) by (simp add: rebuildStep_simps)
  then have "None \<in> set (map (rebuildStep chunks) instrs)"
    using assms(1) by (metis image_eqI list.set_map)
  then show ?thesis by (rule bufferConcat_None)
qed

section \<open>Scanning a buffer against its own chunks\<close>

lemma int_sum_le: "int a + int b \<le> int c \<longleftrightarrow> a + b \<le> c"
  by linarith

lemma int_less_sum: "int c < int a + int b \<longleftrightarrow> c < a + b"
  by linarith

lemma subarray_block:
  assumes "0 < n"
  shows "subarray t (int (k * n)) (int (k * n) + int n) = take n (drop (k * n) t)"
proof -
  have "subarray t (int (k * n)) (int (k * n) + int n) =
        take (nat (int (k * n) + int n - int (k * n))) (drop (nat (int (k * n))) t)"
    by (rule subarray_nonneg) simp_all
  also have "nat (int (k * n) + int n - int (k * n)) = n" by simp
  also have "nat (int (k * n)) = k * n" by (rule nat_int)
  finally show ?thesis .
qed

lemma indexFold_last:
  "fold (\<lambda>(i, chunk). setChecksum i chunk) (enumerate n chunks) m0 k = Some e \<Longrightarrow>
   i < length chunks \<Longrightarrow> calculateWeakBlockChecksum (chunks ! i) = k \<Longrightarrow>
   int (n + i) \<le> index e"
proof (induction chunks arbitrary: n m0 i)
  case Nil
  then show ?case by simp
next
  case (Cons c cs)
  from Cons.prems(1)
  have f: "fold (\<lambda>(i, chunk). setChecksum i chunk) (enumerate (Suc n) cs) (setChecksum n c m0) k
        = Some e"
    by simp
  show ?case
  proof (cases i)
    case 0
    then have k: "k = calculateWeakBlockChecksum c" using Cons.prems(3) by simp
    from indexFold_entry [OF f] show ?thesis
    proof
      assume "setChecksum n c m0 k = Some e"
      then show ?thesis using k 0 by (auto simp: setChecksum_apply)
    next
      assume "\<exists>i<length cs. e = \<lparr>index = int (Suc n + i),
          strong = calculateStrongBlockChecksum (cs ! i)\<rparr> \<and>
        k = calculateWeakBlockChecksum (cs ! i)"
      then show ?thesis using 0 by auto
    qed
  next
    case (Suc i')
    then have "i' < length cs" "calculateWeakBlockChecksum (cs ! i') = k"
      using Cons.prems(2,3) by simp_all
    from Cons.IH [OF f this] show ?thesis using Suc by simp
  qed
qed

lemma buildChecksumMap_last:
  assumes "buildChecksumMap chunks k = Some e" "i < length chunks"
    "calculateWeakBlockChecksum (chunks ! i) = k"
  shows "int i \<le> index e"
  using indexFold_last [of 0 chunks Map.empty k e i] assms
  by (simp add: buildChecksumMap_def)

lemma last_filter_upt:
  assumes "i < n" "P i" "\<forall>i' < n. P i' \<longrightarrow> i' \<le> i"
  shows "last (filter P [0..<n]) = i"
proof -
  have "[0..<n] = [0..<i] @ i # [Suc i..<n]"
    using assms(1) by (metis le0 less_imp_le_nat upt_add_eq_append upt_conv_Cons le_add_diff_inverse)
  moreover have "filter P [Suc i..<n] = []"
    using assms(3) by (auto simp: filter_empty_conv)
  ultimately show ?thesis using assms(2) by simp
qed

lemma matchWindow_agreeing_last:
  assumes agree: "\<forall>c\<in>set chunks. \<forall>d\<in>set chunks.
             calculateWeakBlockChecksum c = calculateWeakBlockChecksum d \<longrightarrow>
             calculateStrongBlockChecksum c = calculateStrongBlockChecksum d"
    and j: "j < length chunks"
  shows "\<exists>e. matchWindow (buildChecksumMap chunks) (chunks ! j) = Some e \<and>
             index e = int (lastWeakIndex chunks (chunks ! j))"
proof -
  have c: "chunks ! j \<in> set chunks" using j by simp
  from buildChecksumMap_dom [OF c] obtain e where
    e: "buildChecksumMap chunks (calculateWeakBlockChecksum (chunks ! j)) = Some e" by blast
  from buildChecksumMap_entry [OF e] obtain i where i: "i < length chunks"
    "e = \<lparr>index = int i, strong = calculateStrongBlockChecksum (chunks ! i)\<rparr>"
    "calculateWeakBlockChecksum (chunks ! j) = calculateWeakBlockChecksum (chunks ! i)" by blast
  have "chunks ! i \<in> set chunks" using i(1) by simp
  then have "calculateStrongBlockChecksum (chunks ! j) = calculateStrongBlockChecksum (chunks ! i)"
    using agree c i(3) by blast
  then have m: "matchWindow (buildChecksumMap chunks) (chunks ! j) = Some e"
    using e i(2) by (simp add: matchWindow_Some)
  have "\<forall>i' < length chunks.
          calculateWeakBlockChecksum (chunks ! i') = calculateWeakBlockChecksum (chunks ! j) \<longrightarrow>
          i' \<le> i"
    using buildChecksumMap_last [OF e] i(2) by auto
  then have "lastWeakIndex chunks (chunks ! j) = i"
    unfolding lastWeakIndex_def using i(1,3) by (intro last_filter_upt) simp_all
  then show ?thesis using m i(2) by simp
qed

lemma le_last_filter_upt: "j < n \<Longrightarrow> P j \<Longrightarrow> j \<le> last (filter P [0..<n])"
proof (induction n)
  case 0
  then show ?case by simp
next
  case (Suc n)
  show ?case
  proof (cases "P n")
    case True
    then show ?thesis using Suc.prems by simp
  next
    case False
    then have "j < n" using Suc.prems by (cases "j = n") auto
    then show ?thesis using Suc.IH Suc.prems(2) False by simp
  qed
qed

lemma lastWeakIndex_props:
  assumes j: "j < length chunks"
  shows "j \<le> lastWeakIndex chunks (chunks ! j) \<and> lastWeakIndex chunks (chunks ! j) < length chunks \<and>
         calculateWeakBlockChecksum (chunks ! lastWeakIndex chunks (chunks ! j)) =
           calculateWeakBlockChecksum (chunks ! j)"
proof -
  let ?P = "\<lambda>i. calculateWeakBlockChecksum (chunks ! i) = calculateWeakBlockChecksum (chunks ! j)"
  let ?xs = "filter ?P [0..<length chunks]"
  have mem: "j \<in> set ?xs" using j by simp
  then have ne: "?xs \<noteq> []" by force
  then have "last ?xs \<in> set ?xs" by (rule last_in_set)
  then have a: "last ?xs < length chunks" "?P (last ?xs)" by simp_all
  have "j \<le> last ?xs" using j by (intro le_last_filter_upt) simp_all
  then show ?thesis using a by (simp add: lastWeakIndex_def)
qed

lemma lastWeakIndex_distinct:
  assumes d: "distinct (map calculateWeakBlockChecksum chunks)" and j: "j < length chunks"
  shows "lastWeakIndex chunks (chunks ! j) = j"
proof -
  from lastWeakIndex_props [OF j] have i: "lastWeakIndex chunks (chunks ! j) < length chunks"
    "calculateWeakBlockChecksum (chunks ! lastWeakIndex chunks (chunks ! j)) =
           calculateWeakBlockChecksum (chunks ! j)" by simp_all
  then have "map calculateWeakBlockChecksum chunks ! lastWeakIndex chunks (chunks ! j) =
        map calculateWeakBlockChecksum chunks ! j" using j by simp
  then show ?thesis using nth_eq_iff_index_eq [OF d] i(1) j by simp
qed


lemma matchWindow_distinct:
  assumes d: "distinct (map calculateWeakBlockChecksum chunks)" and j: "j < length chunks"
  shows "\<exists>e. matchWindow (buildChecksumMap chunks) (chunks ! j) = Some e \<and> index e = int j"
proof -
  have "chunks ! j \<in> set chunks" using j by simp
  from buildChecksumMap_dom [OF this] obtain e where
    e: "buildChecksumMap chunks (calculateWeakBlockChecksum (chunks ! j)) = Some e" by blast
  from buildChecksumMap_entry [OF e] obtain i where i: "i < length chunks"
    "e = \<lparr>index = int i, strong = calculateStrongBlockChecksum (chunks ! i)\<rparr>"
    "calculateWeakBlockChecksum (chunks ! j) = calculateWeakBlockChecksum (chunks ! i)" by blast
  have "map calculateWeakBlockChecksum chunks ! j = map calculateWeakBlockChecksum chunks ! i"
    using i(1,3) j by simp
  moreover have "j < length (map calculateWeakBlockChecksum chunks)"
    "i < length (map calculateWeakBlockChecksum chunks)" using i(1) j by simp_all
  ultimately have "j = i" using nth_eq_iff_index_eq [OF d] by blast
  then have "matchWindow (buildChecksumMap chunks) (chunks ! j) = Some e \<and> index e = int j"
    using e i(2) by (simp add: matchWindow_Some)
  then show ?thesis by blast
qed

lemma full_blocks:
  assumes n: "0 < n" and j: "Suc j * n \<le> length xs"
  shows "j < length (blocksOf n xs)" "blocksOf n xs ! j = take n (drop (j * n) xs)"
proof -
  have lt: "j * n < length xs" using n j by simp
  have "Suc j * n \<le> length xs + n - 1" using n j by simp
  then have "Suc j \<le> (length xs + n - 1) div n"
    using n by (simp add: less_eq_div_iff_mult_less_eq)
  then show "j < length (blocksOf n xs)" using n by (simp add: length_blocksOf)
  show "blocksOf n xs ! j = take n (drop (j * n) xs)" using n lt by (rule blocksOf_nth)
qed

lemma findLoop_all_match:
  assumes cs: "0 < cs"
    and hyp: "\<And>j. Suc j * nat cs \<le> length t \<Longrightarrow>
               matchWindow m (take (nat cs) (drop (j * nat cs) t)) \<noteq> None"
  shows "findLoop m t cs (int (k * nat cs))
           (subarray t (int (k * nat cs)) (int (k * nat cs) + cs)) d = Some d"
proof (induction "length t - k * nat cs" arbitrary: k rule: less_induct)
  case less
  define n where "n = nat cs"
  have n: "0 < n" "cs = int n" using cs by (simp_all add: n_def)
  define pos where "pos = int (k * n)"
  have next_pos: "pos + cs = int (Suc k * n)" by (simp add: pos_def n(2))
  show ?case unfolding n_def [symmetric] pos_def [symmetric]
  proof (cases "pos \<le> int (length t) - cs")
    case False
    then show "findLoop m t cs pos (subarray t pos (pos + cs)) d = Some d"
      by (subst findLoop.simps) simp
  next
    case True
    then have "int (k * n) + int n \<le> int (length t)" by (simp add: pos_def n(2))
    then have "k * n + n \<le> length t" by (simp only: int_sum_le)
    then have fit: "Suc k * n \<le> length t" by simp
    have w: "subarray t pos (pos + cs) = take n (drop (k * n) t)"
      unfolding pos_def n(2) using n(1) by (rule subarray_block)
    obtain e where e: "matchWindow m (subarray t pos (pos + cs)) = Some e"
      using hyp [of k] fit w by (auto simp: n_def)
    have "findLoop m t cs pos (subarray t pos (pos + cs)) d =
          findLoop m t cs (pos + cs) (subarray t (pos + cs) (pos + cs + cs)) d"
      using True e by (subst findLoop.simps) simp
    also have "\<dots> = findLoop m t cs (int (Suc k * nat cs))
           (subarray t (int (Suc k * nat cs)) (int (Suc k * nat cs) + cs)) d"
      by (simp only: next_pos n_def)
    also have "\<dots> = Some d"
      using fit n(1) by (intro less.hyps) (simp add: n_def)
    finally show "findLoop m t cs pos (subarray t pos (pos + cs)) d = Some d" .
  qed
qed

lemma scanEvents_all_match:
  assumes cs: "0 < cs"
    and hyp: "\<And>j. Suc j * nat cs \<le> length t \<Longrightarrow>
               \<exists>e. matchWindow m (take (nat cs) (drop (j * nat cs) t)) = Some e \<and> index e = f j"
  shows "k \<le> length t div nat cs \<Longrightarrow>
         scanEvents m t cs (int (k * nat cs)) =
           map (\<lambda>j. Matched (f j)) [k..<length t div nat cs] @
           map Unmatched (drop (length t div nat cs * nat cs) t)"
proof (induction "length t div nat cs - k" arbitrary: k rule: less_induct)
  case less
  define n where "n = nat cs"
  have n: "0 < n" "cs = int n" using cs by (simp_all add: n_def)
  define q where "q = length t div n"
  define pos where "pos = int (k * n)"
  have pos0: "0 \<le> pos" by (simp add: pos_def)
  have next_pos: "pos + cs = int (Suc k * n)" by (simp add: pos_def n(2))
  have qn: "q * n \<le> length t" by (simp add: q_def)
  have kq: "k \<le> q" using less.prems by (simp add: q_def n_def)
  have goal: "scanEvents m t cs pos =
           map (\<lambda>j. Matched (f j)) [k..<q] @ map Unmatched (drop (q * n) t)"
  proof (cases "k = q")
    case True
    have "length t < q * n + n"
      using n(1) dividend_less_div_times [of n "length t"] by (simp add: ac_simps q_def)
    then have "length t < k * n + n" using True by simp
    then have "int (length t) < int (k * n) + int n" by (simp only: int_less_sum)
    then have "int (length t) - cs < pos" by (simp add: pos_def n(2))
    then have "scanEvents m t cs pos = map Unmatched (drop (nat pos) t)"
      using cs pos0 by (intro scanEvents_tail)
    moreover have "nat pos = q * n" unfolding pos_def True by (rule nat_int)
    ultimately show ?thesis using True by simp
  next
    case False
    then have lt: "k < q" using kq by simp
    then have "Suc k * n \<le> q * n" by (intro mult_le_mono1) simp
    then have fit: "Suc k * n \<le> length t" using qn by linarith
    then have "k * n + n \<le> length t" by simp
    then have "int (k * n) + int n \<le> int (length t)" by (simp only: int_sum_le)
    then have inr: "pos < int (length t)" "pos \<le> int (length t) - cs"
      using n by (simp_all add: pos_def)
    have w: "subarray t pos (pos + cs) = take n (drop (k * n) t)"
      unfolding pos_def n(2) using n(1) by (rule subarray_block)
    obtain e where e: "matchWindow m (subarray t pos (pos + cs)) = Some e" "index e = f k"
      using hyp [of k] fit w by (auto simp: n_def)
    have "scanEvents m t cs pos = Matched (index e) # scanEvents m t cs (pos + cs)"
      using inr cs pos0 e by (subst scanEvents.simps) simp
    also have "scanEvents m t cs (pos + cs) = scanEvents m t cs (int (Suc k * nat cs))"
      by (simp only: next_pos n_def)
    also have "\<dots> = map (\<lambda>j. Matched (f j)) [Suc k..<length t div nat cs] @
                     map Unmatched (drop (length t div nat cs * nat cs) t)"
      using lt by (intro less.hyps) (simp_all add: q_def n_def)
    finally show ?thesis using e(2) lt by (simp add: upt_conv_Cons q_def n_def)
  qed
  then show ?case by (simp add: pos_def q_def n_def)
qed

lemma coalesce_matches_then_tail:
  "coalesce (map (\<lambda>j. Matched (f j)) js @ map Unmatched xs) =
     map (\<lambda>j. CopyRef (f j)) js @ (if xs = [] then [] else [Literal xs])"
  by (induction js) (simp_all add: coalesce_map_Unmatched)

lemma blocksOf_last_partial:
  assumes n: "0 < n" and r: "length xs mod n \<noteq> 0"
  shows "last (blocksOf n xs) = drop (length xs div n * n) xs"
proof -
  define q where "q = length xs div n"
  have dm: "length xs = q * n + length xs mod n"
    unfolding q_def using div_mult_mod_eq [of "length xs" n] by simp
  have rn: "length xs mod n < n" using n by simp
  have "(length xs + n - 1) div n = Suc q"
  proof (rule div_nat_eqI)
    show "n * Suc q \<le> length xs + n - 1" using dm r by (simp add: mult.commute)
    show "length xs + n - 1 < n * Suc (Suc q)" using dm rn by (simp add: mult.commute)
  qed
  then have len: "length (blocksOf n xs) = Suc q" using n by (simp add: length_blocksOf)
  then have ne: "blocksOf n xs \<noteq> []" by auto
  have lt: "q * n < length xs" using dm r by simp
  have "last (blocksOf n xs) = blocksOf n xs ! q"
    using ne len by (simp add: last_conv_nth)
  also have "\<dots> = take n (drop (q * n) xs)" using n lt by (rule blocksOf_nth)
  also have "\<dots> = drop (q * n) xs" using dm rn by simp
  finally show ?thesis by (simp add: q_def)
qed

section \<open>Chunk sizes that are not positive\<close>

lemma divideToChunks_empty: "divideToChunks [] cs = Some []"
  unfolding divideToChunks_def by (subst divideLoop.simps) simp

lemma buildChecksumMap_empty: "buildChecksumMap [] = Map.empty"
  by (simp add: buildChecksumMap_def)

lemma matchWindow_empty: "matchWindow Map.empty w = None"
  by (simp add: matchWindow_def)

lemma generateLoop_no_index:
  "0 \<le> pos \<Longrightarrow>
   generateLoop Map.empty t cs pos (map (\<lambda>b. [b]) acc) instrs =
     Some (instrs @ (if acc @ drop (nat pos) t = [] then []
                     else [Literal (acc @ drop (nat pos) t)]))"
proof (induction "nat (int (length t) - pos)" arbitrary: pos acc rule: less_induct)
  case less
  show ?case
  proof (cases "pos < int (length t)")
    case False
    then have "drop (nat pos) t = []" using less.prems by simp
    moreover have "generateLoop Map.empty t cs pos (map (\<lambda>b. [b]) acc) instrs =
                   Some (flushDiffering (map (\<lambda>b. [b]) acc) instrs)"
      using False by (subst generateLoop.simps) simp
    ultimately show ?thesis by (simp add: flushDiffering_singletons)
  next
    case True
    have "generateLoop Map.empty t cs pos (map (\<lambda>b. [b]) acc) instrs =
          generateLoop Map.empty t cs (pos + 1)
            (map (\<lambda>b. [b]) acc @ [subarray t pos (pos + 1)]) instrs"
      using True by (subst generateLoop.simps) (simp add: matchWindow_empty)
    also have "map (\<lambda>b. [b]) acc @ [subarray t pos (pos + 1)] =
               map (\<lambda>b. [b]) (acc @ [t ! nat pos])"
      using True less.prems by (simp add: subarray_single)
    also have "generateLoop Map.empty t cs (pos + 1) (map (\<lambda>b. [b]) (acc @ [t ! nat pos])) instrs =
          Some (instrs @ (if (acc @ [t ! nat pos]) @ drop (nat (pos + 1)) t = [] then []
                     else [Literal ((acc @ [t ! nat pos]) @ drop (nat (pos + 1)) t)]))"
      using True less.prems by (intro less.hyps) simp_all
    also have "(acc @ [t ! nat pos]) @ drop (nat (pos + 1)) t = acc @ drop (nat pos) t"
      using True less.prems by (simp add: Cons_nth_drop_Suc nat_add_distrib)
    finally show ?thesis .
  qed
qed

lemma findLoop_no_index_value:
  "findLoop Map.empty t cs pos (subarray t pos (pos + cs)) d =
     Some (d @ map (\<lambda>p. subarray (subarray t p (p + cs)) 0 cs) [pos..int (length t) - cs])"
proof (induction "nat (int (length t) - cs - pos + 1)" arbitrary: pos d rule: less_induct)
  case less
  show ?case
  proof (cases "pos \<le> int (length t) - cs")
    case False
    then have "[pos..int (length t) - cs] = []" by simp
    moreover have "findLoop Map.empty t cs pos (subarray t pos (pos + cs)) d = Some d"
      using False by (subst findLoop.simps) simp
    ultimately show ?thesis by simp
  next
    case True
    have "findLoop Map.empty t cs pos (subarray t pos (pos + cs)) d =
          findLoop Map.empty t cs (pos + 1) (subarray t (pos + 1) (pos + 1 + cs))
            (d @ [subarray (subarray t pos (pos + cs)) 0 cs])"
      using True by (subst findLoop.simps) (simp add: matchWindow_empty)
    also have "\<dots> = Some ((d @ [subarray (subarray t pos (pos + cs)) 0 cs]) @
        map (\<lambda>p. subarray (subarray t p (p + cs)) 0 cs) [pos + 1..int (length t) - cs])"
      using True by (intro less.hyps) simp
    also have "(d @ [subarray (subarray t pos (pos + cs)) 0 cs]) @
        map (\<lambda>p. subarray (subarray t p (p + cs)) 0 cs) [pos + 1..int (length t) - cs] =
        d @ map (\<lambda>p. subarray (subarray t p (p + cs)) 0 cs) [pos..int (length t) - cs]"
      using True by (simp add: upto_rec1 [of pos])
    finally show ?thesis .
  qed
qed

lemma rebuild_no_chunks:
  "bufferConcat (map (rebuildStep []) instrs) =
     (if \<exists>n. CopyRef n \<in> set instrs then Inl TypeError
      else Inr (concat (map (instructionBytes []) instrs)))"
proof (cases "\<exists>n. CopyRef n \<in> set instrs")
  case True
  then obtain n where n: "CopyRef n \<in> set instrs" by blast
  have "rebuildStep [] (CopyRef n) = None" by (simp add: rebuildStep_simps)
  then have "None \<in> set (map (rebuildStep []) instrs)"
    using n by (metis image_eqI list.set_map)
  then have "bufferConcat (map (rebuildStep []) instrs) = Inl TypeError"
    by (rule bufferConcat_None)
  then show ?thesis using True by simp
next
  case False
  then have "\<forall>n. CopyRef n \<in> set instrs \<longrightarrow> 0 \<le> n \<and> n < int (length ([] :: buffer list))"
    by blast
  then have "bufferConcat (map (rebuildStep []) instrs) =
     Inr (concat (map (instructionBytes []) instrs))"
    by (rule bufferConcat_in_range)
  then show ?thesis using False by simp
qed

section \<open>The loops follow the cursor of the specification\<close>

text \<open>
  For a positive chunk size the differing windows returned by \<open>findDifferingChunks\<close>
  and the decisions taken by \<open>generateInstructions\<close> are those of \<open>cursorSteps\<close>.
\<close>

declare cursorSteps.simps [simp del]

lemma matchWindow_windowMatches:
  "matchWindow m w =
     (if windowMatches m w then Some (the (m (calculateWeakBlockChecksum w))) else None)"
  by (auto simp: matchWindow_def windowMatches_def Let_def dom_def split: option.splits)

lemma cursorSteps_Nil:
  "\<not> (0 < cs \<and> 0 \<le> pos \<and> pos < int (length t)) \<Longrightarrow> cursorSteps m t cs pos = []"
  by (subst cursorSteps.simps) auto

lemma cursorSteps_Cons:
  "0 < cs \<Longrightarrow> 0 \<le> pos \<Longrightarrow> pos < int (length t) \<Longrightarrow>
   b = (pos \<le> int (length t) - cs \<and> windowMatches m (subarray t pos (pos + cs))) \<Longrightarrow>
   cursorSteps m t cs pos = (pos, b) # cursorSteps m t cs (if b then pos + cs else pos + 1)"
  by (subst cursorSteps.simps) (simp add: Let_def)

lemma cursorSteps_range:
  "s \<in> set (cursorSteps m t cs pos) \<Longrightarrow> pos \<le> fst s \<and> fst s < int (length t)"
proof (induction "nat (int (length t) - pos)" arbitrary: pos rule: less_induct)
  case less
  show ?case
  proof (cases "0 < cs \<and> 0 \<le> pos \<and> pos < int (length t)")
    case False
    then show ?thesis using less.prems by (simp add: cursorSteps_Nil)
  next
    case True
    define b where "b = (pos \<le> int (length t) - cs \<and> windowMatches m (subarray t pos (pos + cs)))"
    define nxt where "nxt = (if b then pos + cs else pos + 1)"
    have st: "cursorSteps m t cs pos = (pos, b) # cursorSteps m t cs nxt"
      using True by (simp add: cursorSteps_Cons [OF _ _ _ b_def] nxt_def)
    have gt: "pos < nxt" using True by (simp add: nxt_def)
    from less.prems st have "s = (pos, b) \<or> s \<in> set (cursorSteps m t cs nxt)" by simp
    then show ?thesis
    proof
      assume "s = (pos, b)"
      then show ?thesis using True by simp
    next
      assume "s \<in> set (cursorSteps m t cs nxt)"
      moreover have "nat (int (length t) - nxt) < nat (int (length t) - pos)"
        using gt True by simp
      ultimately have "nxt \<le> fst s \<and> fst s < int (length t)" by (rule less.hyps [rotated])
      then show ?thesis using gt by simp
    qed
  qed
qed

lemma cursorSteps_decision:
  "s \<in> set (cursorSteps m t cs pos) \<Longrightarrow>
   snd s \<longleftrightarrow> (fst s \<le> int (length t) - cs \<and>
              windowMatches m (subarray t (fst s) (fst s + cs)))"
proof (induction "nat (int (length t) - pos)" arbitrary: pos rule: less_induct)
  case less
  show ?case
  proof (cases "0 < cs \<and> 0 \<le> pos \<and> pos < int (length t)")
    case False
    then show ?thesis using less.prems by (simp add: cursorSteps_Nil)
  next
    case True
    define b where "b = (pos \<le> int (length t) - cs \<and> windowMatches m (subarray t pos (pos + cs)))"
    define nxt where "nxt = (if b then pos + cs else pos + 1)"
    have st: "cursorSteps m t cs pos = (pos, b) # cursorSteps m t cs nxt"
      using True by (simp add: cursorSteps_Cons [OF _ _ _ b_def] nxt_def)
    have gt: "pos < nxt" using True by (simp add: nxt_def)
    from less.prems st have "s = (pos, b) \<or> s \<in> set (cursorSteps m t cs nxt)" by simp
    then show ?thesis
    proof
      assume "s = (pos, b)"
      then show ?thesis by (simp add: b_def)
    next
      assume "s \<in> set (cursorSteps m t cs nxt)"
      moreover have "nat (int (length t) - nxt) < nat (int (length t) - pos)"
        using gt True by simp
      ultimately show ?thesis by (rule less.hyps [rotated])
    qed
  qed
qed

lemma cursorSteps_hd:
  "cursorSteps m t cs pos \<noteq> [] \<Longrightarrow> fst (hd (cursorSteps m t cs pos)) = pos"
  by (subst (asm) cursorSteps.simps, subst cursorSteps.simps) (simp add: Let_def split: if_splits)

lemma cursorSteps_nonempty:
  "cursorSteps m t cs pos \<noteq> [] \<longleftrightarrow> 0 < cs \<and> 0 \<le> pos \<and> pos < int (length t)"
  by (subst cursorSteps.simps) (simp add: Let_def)

lemma cursorSteps_advance:
  "Suc k < length (cursorSteps m t cs pos) \<Longrightarrow>
   fst (cursorSteps m t cs pos ! Suc k) =
     fst (cursorSteps m t cs pos ! k) + (if snd (cursorSteps m t cs pos ! k) then cs else 1)"
proof (induction "nat (int (length t) - pos)" arbitrary: pos k rule: less_induct)
  case less
  show ?case
  proof (cases "0 < cs \<and> 0 \<le> pos \<and> pos < int (length t)")
    case False
    then show ?thesis using less.prems by (simp add: cursorSteps_Nil)
  next
    case True
    define b where "b = (pos \<le> int (length t) - cs \<and> windowMatches m (subarray t pos (pos + cs)))"
    define nxt where "nxt = (if b then pos + cs else pos + 1)"
    define rest where "rest = cursorSteps m t cs nxt"
    have st: "cursorSteps m t cs pos = (pos, b) # rest"
      using True by (simp add: cursorSteps_Cons [OF _ _ _ b_def] nxt_def rest_def)
    have gt: "nat (int (length t) - nxt) < nat (int (length t) - pos)"
      using True by (simp add: nxt_def)
    show ?thesis
    proof (cases k)
      case 0
      then have "rest \<noteq> []" using less.prems st by auto
      then have "fst (hd rest) = nxt" unfolding rest_def by (rule cursorSteps_hd)
      moreover have "rest ! 0 = hd rest" using \<open>rest \<noteq> []\<close> by (simp add: hd_conv_nth)
      ultimately show ?thesis using 0 st by (simp add: nxt_def)
    next
      case (Suc k')
      then have "Suc k' < length (cursorSteps m t cs nxt)"
        using less.prems st by (simp add: rest_def)
      with gt have "fst (cursorSteps m t cs nxt ! Suc k') =
        fst (cursorSteps m t cs nxt ! k') + (if snd (cursorSteps m t cs nxt ! k') then cs else 1)"
        by (rule less.hyps)
      then show ?thesis using Suc st by (simp add: rest_def)
    qed
  qed
qed

lemma cursorSteps_end:
  "cursorSteps m t cs pos \<noteq> [] \<Longrightarrow>
   int (length t) \<le> fst (last (cursorSteps m t cs pos)) +
     (if snd (last (cursorSteps m t cs pos)) then cs else 1)"
proof (induction "nat (int (length t) - pos)" arbitrary: pos rule: less_induct)
  case less
  then have True: "0 < cs \<and> 0 \<le> pos \<and> pos < int (length t)"
    by (simp add: cursorSteps_nonempty)
  define b where "b = (pos \<le> int (length t) - cs \<and> windowMatches m (subarray t pos (pos + cs)))"
  define nxt where "nxt = (if b then pos + cs else pos + 1)"
  define rest where "rest = cursorSteps m t cs nxt"
  have st: "cursorSteps m t cs pos = (pos, b) # rest"
    using True by (simp add: cursorSteps_Cons [OF _ _ _ b_def] nxt_def rest_def)
  have gt: "nat (int (length t) - nxt) < nat (int (length t) - pos)" "0 \<le> nxt"
    using True by (simp_all add: nxt_def)
  show ?case
  proof (cases "rest = []")
    case True
    then have "\<not> (0 < cs \<and> 0 \<le> nxt \<and> nxt < int (length t))"
      using cursorSteps_nonempty [of m t cs nxt] by (simp add: rest_def)
    then have "int (length t) \<le> nxt"
      using gt(2) \<open>0 < cs \<and> 0 \<le> pos \<and> pos < int (length t)\<close> by simp
    then show ?thesis using True st by (auto simp: nxt_def split: if_splits)
  next
    case False
    then have "int (length t) \<le> fst (last rest) + (if snd (last rest) then cs else 1)"
      unfolding rest_def using gt(1) by (intro less.hyps)
    then show ?thesis using False st by simp
  qed
qed

lemma scanEvents_steps:
  "0 < cs \<Longrightarrow> 0 \<le> pos \<Longrightarrow>
   scanEvents m t cs pos = map (stepEvent m t cs) (cursorSteps m t cs pos)"
proof (induction "nat (int (length t) - pos)" arbitrary: pos rule: less_induct)
  case less
  show ?case
  proof (cases "pos < int (length t)")
    case False
    then show ?thesis by (simp add: cursorSteps_Nil scanEvents.simps)
  next
    case True
    define b where "b = (pos \<le> int (length t) - cs \<and> windowMatches m (subarray t pos (pos + cs)))"
    define nxt where "nxt = (if b then pos + cs else pos + 1)"
    have st: "cursorSteps m t cs pos = (pos, b) # cursorSteps m t cs nxt"
      using True less.prems by (simp add: cursorSteps_Cons [OF _ _ _ b_def] nxt_def)
    have gt: "nat (int (length t) - nxt) < nat (int (length t) - pos)" "0 \<le> nxt"
      using True less.prems by (simp_all add: nxt_def)
    have IH: "scanEvents m t cs nxt = map (stepEvent m t cs) (cursorSteps m t cs nxt)"
      using gt less.prems(1) by (intro less.hyps)
    have "scanEvents m t cs pos = stepEvent m t cs (pos, b) # scanEvents m t cs nxt"
      using True less.prems
      by (subst scanEvents.simps)
        (auto simp: matchWindow_windowMatches stepEvent_def b_def nxt_def)
    then show ?thesis using IH st by simp
  qed
qed

lemma subarray_window_again:
  "0 < cs \<Longrightarrow> 0 \<le> pos \<Longrightarrow> subarray (subarray t pos (pos + cs)) 0 cs = subarray t pos (pos + cs)"
  by (simp add: subarray_nonneg)

lemma findLoop_steps:
  "0 < cs \<Longrightarrow> 0 \<le> pos \<Longrightarrow>
   findLoop m t cs pos (subarray t pos (pos + cs)) d =
     Some (d @ map (\<lambda>s. subarray t (fst s) (fst s + cs))
                 (filter (\<lambda>s. fst s \<le> int (length t) - cs \<and> \<not> snd s)
                    (cursorSteps m t cs pos)))"
proof (induction "nat (int (length t) - pos)" arbitrary: pos d rule: less_induct)
  case less
  show ?case
  proof (cases "pos \<le> int (length t) - cs")
    case False
    have "\<not> (fst s \<le> int (length t) - cs \<and> \<not> snd s)" if "s \<in> set (cursorSteps m t cs pos)" for s
      using cursorSteps_range [OF that] False by simp
    then have "filter (\<lambda>s. fst s \<le> int (length t) - cs \<and> \<not> snd s) (cursorSteps m t cs pos) = []"
      by (simp add: filter_empty_conv)
    moreover have "findLoop m t cs pos (subarray t pos (pos + cs)) d = Some d"
      using False by (subst findLoop.simps) simp
    ultimately show ?thesis by simp
  next
    case True
    then have inr: "pos < int (length t)" using less.prems by simp
    define b where "b = (pos \<le> int (length t) - cs \<and> windowMatches m (subarray t pos (pos + cs)))"
    define nxt where "nxt = (if b then pos + cs else pos + 1)"
    have st: "cursorSteps m t cs pos = (pos, b) # cursorSteps m t cs nxt"
      using inr less.prems by (simp add: cursorSteps_Cons [OF _ _ _ b_def] nxt_def)
    have gt: "nat (int (length t) - nxt) < nat (int (length t) - pos)" "0 \<le> nxt"
      using inr less.prems by (simp_all add: nxt_def)
    have IH: "findLoop m t cs nxt (subarray t nxt (nxt + cs)) d' =
     Some (d' @ map (\<lambda>s. subarray t (fst s) (fst s + cs))
                 (filter (\<lambda>s. fst s \<le> int (length t) - cs \<and> \<not> snd s)
                    (cursorSteps m t cs nxt)))" for d'
      using gt less.prems(1) by (intro less.hyps)
    show ?thesis
    proof (cases b)
      case True
      have "findLoop m t cs pos (subarray t pos (pos + cs)) d =
            findLoop m t cs nxt (subarray t nxt (nxt + cs)) d"
        using True \<open>pos \<le> int (length t) - cs\<close>
        by (subst findLoop.simps) (simp add: matchWindow_windowMatches b_def nxt_def)
      then show ?thesis using IH [of d] st True by simp
    next
      case False
      have "findLoop m t cs pos (subarray t pos (pos + cs)) d =
            findLoop m t cs nxt (subarray t nxt (nxt + cs))
              (d @ [subarray (subarray t pos (pos + cs)) 0 cs])"
        using False \<open>pos \<le> int (length t) - cs\<close>
        by (subst findLoop.simps) (simp add: matchWindow_windowMatches b_def nxt_def)
      then show ?thesis
        using IH [of "d @ [subarray t pos (pos + cs)]"] st False
          \<open>pos \<le> int (length t) - cs\<close> less.prems
        by (simp add: subarray_window_again)
    qed
  qed
qed


lemma windowMatches_iff:
  "windowMatches m w \<longleftrightarrow>
     (\<exists>entry. m (calculateWeakBlockChecksum w) = Some entry \<and>
              strong entry = calculateStrongBlockChecksum w)"
  by (auto simp: windowMatches_def dom_def)

section \<open>Checksums collide\<close>

text \<open>
  The weak checksum is one of at most \<open>2^32\<close> numbers and the strong checksum one of
  \<open>16^40\<close> strings, while there are \<open>256^25\<close> buffers of 25 bytes: two different
  buffers of 25 bytes have the same pair of checksums.
\<close>

lemma hexDigit_range: "hexDigit n \<in> set hexDigits"
proof -
  have "n mod 16 < length hexDigits" by (simp add: hexDigits_def)
  then show ?thesis unfolding hexDigit_def by (rule nth_mem)
qed

lemma hex32_shape: "length (hex32 w) = 8 \<and> set (hex32 w) \<subseteq> set hexDigits"
  unfolding hex32_def using hexDigit_range by auto

lemma hexDigest_shape:
  "length (hexDigest s) = 40 \<and> set (hexDigest s) \<subseteq> set hexDigits"
proof -
  obtain h0 h1 h2 h3 h4 where s: "s = (h0, h1, h2, h3, h4)" by (cases s) auto
  show ?thesis unfolding s hexDigest.simps using hex32_shape by simp
qed

lemma strong_range:
  "range calculateStrongBlockChecksum \<subseteq> {s. set s \<subseteq> set hexDigits \<and> length s = 40}"
proof -
  have "length (calculateStrongBlockChecksum b) = 40 \<and>
        set (calculateStrongBlockChecksum b) \<subseteq> set hexDigits" for b
    unfolding calculateStrongBlockChecksum_def by (rule hexDigest_shape)
  then show ?thesis by blast
qed

lemma weak_range: "range calculateWeakBlockChecksum \<subseteq> range (sint :: 32 word \<Rightarrow> int)"
  by (auto simp: calculateWeakBlockChecksum_def adler32_buf_def Let_def)

lemma card_hex_strings:
  "card {s. set s \<subseteq> set hexDigits \<and> length s = 40} = 16 ^ 40"
proof -
  have "card (set hexDigits) = 16"
    by (subst distinct_card) (simp_all add: hexDigits_def)
  then show ?thesis by (simp only: card_lists_length_eq [OF finite_set])
qed

lemma card_buffers: "card {b :: buffer. length b = 25} = 256 ^ 25"
proof -
  have "{b :: buffer. length b = 25} = {b. set b \<subseteq> UNIV \<and> length b = 25}" by simp
  moreover have "card (UNIV :: byte set) = 256" by (simp add: card_word)
  ultimately show ?thesis by (simp only: card_lists_length_eq [OF finite])
qed

lemma checksum_pigeonhole:
  "\<exists>a b. length a = 25 \<and> length b = 25 \<and> checksumCollision a b"
proof -
  let ?D = "{b :: buffer. length b = 25}"
  let ?H = "{s. set s \<subseteq> set hexDigits \<and> length s = 40}"
  let ?W = "range (sint :: 32 word \<Rightarrow> int)"
  let ?f = "\<lambda>b. (calculateWeakBlockChecksum b, calculateStrongBlockChecksum b)"
  have finH: "finite ?H" by (rule finite_lists_length_eq) simp
  have finW: "finite ?W" by simp
  have "card ?W \<le> card (UNIV :: 32 word set)" by (rule card_image_le) simp
  then have cardW: "card ?W \<le> 2 ^ 32" by (simp add: card_word)
  have "?f ` ?D \<subseteq> ?W \<times> ?H" using weak_range strong_range by auto
  then have "card (?f ` ?D) \<le> card (?W \<times> ?H)"
    by (rule card_mono [OF finite_cartesian_product [OF finW finH]])
  also have "\<dots> = card ?W * card ?H" by (rule card_cartesian_product)
  also have "\<dots> \<le> 2 ^ 32 * 16 ^ 40"
    using cardW by (simp only: card_hex_strings mult_le_mono1)
  also have "\<dots> < (256 :: nat) ^ 25" by simp
  finally have "card (?f ` ?D) < card ?D" by (simp only: card_buffers)
  then have "\<not> inj_on ?f ?D" by (rule pigeonhole)
  then obtain a b where "a \<in> ?D" "b \<in> ?D" "a \<noteq> b" "?f a = ?f b"
    by (auto simp: inj_on_def)
  then have "length a = 25 \<and> length b = 25 \<and> checksumCollision a b"
    by (simp add: checksumCollision_def)
  then show ?thesis by blast
qed

lemma collision_breaks_roundtrip:
  assumes cs: "0 < cs" and la: "int (length a) = cs" and lb: "length b = length a"
    and w: "calculateWeakBlockChecksum a = calculateWeakBlockChecksum b"
    and s: "calculateStrongBlockChecksum a = calculateStrongBlockChecksum b"
  shows "generateInstructions a b cs = Some [CopyRef 0] \<and>
         rebuildTargetFromOriginal a [CopyRef 0] cs = Some (Inr a)"
proof -
  have n: "nat cs = length a" using la by simp
  have ne: "a \<noteq> []" using cs la by auto
  have chunks: "blocksOf (nat cs) a = [a]"
    using ne by (simp add: n blocksOf_step)
  have win: "subarray b 0 (0 + cs) = b" using cs la lb by (simp add: subarray_nonneg)
  have m: "matchWindow (buildChecksumMap [a]) b =
           Some \<lparr>index = 0, strong = calculateStrongBlockChecksum a\<rparr>"
    using w s by (simp add: matchWindow_Some buildChecksumMap_def setChecksum_apply)
  have "scanEvents (buildChecksumMap [a]) b cs 0 =
        Matched 0 # scanEvents (buildChecksumMap [a]) b cs (0 + cs)"
    using cs la lb win m by (subst scanEvents.simps) simp
  also have "scanEvents (buildChecksumMap [a]) b cs (0 + cs) = []"
    using cs la lb by (subst scanEvents.simps) simp
  finally have ev: "scanEvents (buildChecksumMap [a]) b cs 0 = [Matched 0]" .
  have "generateInstructions a b cs = Some [CopyRef 0]"
    using cs by (simp add: generateInstructions_eq chunks ev)
  moreover have "rebuildTargetFromOriginal a [CopyRef 0] cs = Some (Inr a)"
    using cs by (simp add: rebuildTargetFromOriginal_def divideToChunks_eq chunks
        rebuildStep_simps bufferConcat_Some bufferConcat_Nil)
  ultimately show ?thesis by simp
qed

section \<open>Evaluation on examples\<close>

lemmas weak_eval = calculateWeakBlockChecksum_def adler32_buf_def adler32_step_def
lemmas scan_eval = scanEvents.simps matchWindow_def buildChecksumMap_def setChecksum_def
  subarray_def relativeIndex_def weak_eval Let_def

lemma example_generate:
  "generateInstructions [1, 2, 3, 4] [1, 2, 9, 3, 4] 2 = Some [CopyRef 0, Literal [9], CopyRef 1]"
  by (simp add: generateInstructions_eq scan_eval)

lemma example_windows:
  "targetWindows [1, 2, 9, 3, 4] 2 = [[1, 2], [2, 9], [9, 3], [3, 4]]"
  by (simp add: targetWindows_def subarray_def relativeIndex_def upto.simps)

lemma example_no_collision:
  "\<forall>c \<in> set [[1, 2], [3, 4]]. \<forall>w \<in> set (targetWindows [1, 2, 9, 3, 4] 2).
     \<not> checksumCollision c w"
  by (simp add: example_windows checksumCollision_def weak_eval)

lemma example_rebuild:
  "rebuildTargetFromOriginal [1, 2, 3, 4] [CopyRef 0, Literal [9], CopyRef 1] 2 =
     Some (Inr [1, 2, 9, 3, 4])"
  by (simp add: rebuildTargetFromOriginal_def divideToChunks_eq rebuildStep_simps
      bufferConcat_Some bufferConcat_Nil)

lemma example_steps:
  "cursorSteps (buildChecksumMap [[1, 2], [3, 4]]) [1, 2, 9, 3, 4] 2 0 =
     [(0, True), (2, False), (3, True)]"
  by (simp add: cursorSteps.simps windowMatches_def buildChecksumMap_def setChecksum_def
      subarray_def relativeIndex_def weak_eval Let_def)

lemma example_step_events:
  "map (stepEvent (buildChecksumMap [[1, 2], [3, 4]]) [1, 2, 9, 3, 4] 2)
     [(0, True), (2, False), (3, True)] = [Matched 0, Unmatched 9, Matched 1]"
  by (simp add: stepEvent_def buildChecksumMap_def setChecksum_def
      subarray_def relativeIndex_def weak_eval Let_def)

lemma example_repeated:
  "lastWeakIndex [[5, 5], [5, 5], [5]] [5, 5] = 1 \<and>
   [0..<length [5, 5, 5, 5, 5 :: byte] div nat 2] = [0, 1]"
  by (simp add: lastWeakIndex_def weak_eval upt_rec)

section \<open>Evaluating SHA-1\<close>

text \<open>
  Equations that let the simplifier run SHA-1 on a concrete message with every
  intermediate word kept below \<open>2^32\<close>, the digest of the standard's test message
  \<open>abc\<close>, and the digests of two three-byte chunks with the same Adler-32 checksum.
\<close>

lemma replicate_unfold: "replicate n x = (if n = 0 then [] else x # replicate (n - 1) x)"
  by (cases n) simp_all

lemma rotl32_eval:
  "rotl32 n x = word_of_int (uint (push_bit n x) OR uint (drop_bit (32 - n) x))"
  by (simp add: rotl32_def uint_or [symmetric])

lemma expand_unfold:
  "sha1_expand n w =
     (if n = 0 then []
      else rotl32 1 (w ! 13 XOR w ! 8 XOR w ! 2 XOR w ! 0) #
           sha1_expand (n - 1) (tl w @ [rotl32 1 (w ! 13 XOR w ! 8 XOR w ! 2 XOR w ! 0)]))"
  by (cases n) (simp_all add: Let_def)

lemma mod32: "(word_of_int (k mod 4294967296) :: 32 word) = word_of_int k"
proof -
  have "(word_of_int (take_bit 32 k) :: 32 word) = word_of_int k"
    by (rule wi_bintr) simp
  then show ?thesis by (simp add: take_bit_eq_mod)
qed

lemma rounds_eval:
  "sha1_rounds t (w # ws) (a, b, c, d, e) =
     sha1_rounds (t + 1) ws
       (word_of_int ((uint (rotl32 5 a) + uint (sha1_f t b c d) + uint e + uint (sha1_k t) +
                      uint w) mod 4294967296),
        a, rotl32 30 b, c, d)"
  by (simp only: mod32 sha1_rounds.simps) simp

lemmas sha1_eval = calculateStrongBlockChecksum_def sha1_def sha1_pad_def replicate_unfold
  expand_unfold rotl32_eval rounds_eval sha1_f_def sha1_k_def Let_def
  hex32_def hexDigit_def hexDigits_def

lemma strong_abc:
  "calculateStrongBlockChecksum [97, 98, 99] = ''a9993e364706816aba3e25717850c26c9cd0d89d''"
  by (simp add: sha1_eval del: sha1_rounds.simps(2) cong: let_weak_cong)

lemma strong_020:
  "calculateStrongBlockChecksum [0, 2, 0] = ''f5dad108c8a67a7df2714d0d4a9a93c8766f78d8''"
  by (simp add: sha1_eval del: sha1_rounds.simps(2) cong: let_weak_cong)

lemma strong_101:
  "calculateStrongBlockChecksum [1, 0, 1] = ''c42ac1c46f1d4e211c735cc7dfad4ff8391110e9''"
  by (simp add: sha1_eval del: sha1_rounds.simps(2) cong: let_weak_cong)


lemma example_weak_collision:
  "calculateWeakBlockChecksum [0, 2, 0] = calculateWeakBlockChecksum [1, 0, 1]"
  by (simp add: weak_eval)

section \<open>Claims\<close>

text \<open>
  C3. For a buffer of length L and a chunk size C > 0, \<open>divideToChunks\<close> returns
  exactly \<open>ceil(L / C)\<close> chunks; every chunk but the last has C bytes; the last has
  \<open>L mod C\<close> bytes, or C when L is a multiple of C; and the chunks concatenated in
  order are the buffer.
\<close>

theorem C3_divideToChunks_chunking:
  assumes "0 < chunkSizeBytes"
  shows "\<exists>chunks. divideToChunks file chunkSizeBytes = Some chunks
     \<and> int (length chunks) = \<lceil>real (length file) / real_of_int chunkSizeBytes\<rceil>
     \<and> (\<forall>k. Suc k < length chunks \<longrightarrow> int (length (chunks ! k)) = chunkSizeBytes)
     \<and> (chunks \<noteq> [] \<longrightarrow>
          int (length (last chunks)) =
            (if int (length file) mod chunkSizeBytes = 0 then chunkSizeBytes
             else int (length file) mod chunkSizeBytes))
     \<and> concat chunks = file"
proof -
  define n where "n = nat chunkSizeBytes"
  have n: "0 < n" "chunkSizeBytes = int n" using assms by (simp_all add: n_def)
  let ?chunks = "blocksOf n file"
  have 1: "divideToChunks file chunkSizeBytes = Some ?chunks"
    using assms by (simp add: divideToChunks_eq n_def)
  have 2: "int (length ?chunks) = \<lceil>real (length file) / real_of_int chunkSizeBytes\<rceil>"
    using n by (simp add: length_blocksOf ceil_div_nat)
  have 3: "\<forall>k. Suc k < length ?chunks \<longrightarrow> int (length (?chunks ! k)) = chunkSizeBytes"
    using n by (simp add: blocksOf_full_block)
  have 4: "?chunks \<noteq> [] \<longrightarrow>
          int (length (last ?chunks)) =
            (if int (length file) mod chunkSizeBytes = 0 then chunkSizeBytes
             else int (length file) mod chunkSizeBytes)"
  proof
    assume "?chunks \<noteq> []"
    then have "file \<noteq> []" by auto
    then have "length (last ?chunks) =
               (if length file mod n = 0 then n else length file mod n)"
      using n(1) by (intro blocksOf_last_block)
    moreover have "int (length file) mod int n = int (length file mod n)"
      by (simp add: zmod_int)
    ultimately show "int (length (last ?chunks)) =
            (if int (length file) mod chunkSizeBytes = 0 then chunkSizeBytes
             else int (length file) mod chunkSizeBytes)"
      using n(2) by simp
  qed
  have 5: "concat ?chunks = file" using n(1) by (rule concat_blocksOf)
  from 1 2 3 4 5 show ?thesis by blast
qed

theorem C3_divideToChunks_chunking_witness:
  "(0::int) < 3 \<and>
   divideToChunks [49, 50, 51, 52, 53, 54, 55, 56, 57, 48] 3 =
     Some [[49, 50, 51], [52, 53, 54], [55, 56, 57], [48]] \<and>
   \<lceil>real (length [49, 50, 51, 52, 53, 54, 55, 56, 57, 48 :: byte]) / real_of_int 3\<rceil> = 4 \<and>
   int (length [49, 50, 51, 52, 53, 54, 55, 56, 57, 48 :: byte]) mod 3 = 1"
proof -
  have pos: "(0::int) < 3" by simp
  have eq: "divideToChunks [49, 50, 51, 52, 53, 54, 55, 56, 57, 48] 3 =
     Some [[49, 50, 51], [52, 53, 54], [55, 56, 57], [48]]"
    by (simp add: divideToChunks_eq)
  obtain chunks where c:
    "divideToChunks [49, 50, 51, 52, 53, 54, 55, 56, 57, 48] 3 = Some chunks"
    "int (length chunks) =
       \<lceil>real (length [49, 50, 51, 52, 53, 54, 55, 56, 57, 48 :: byte]) / real_of_int 3\<rceil>"
    using C3_divideToChunks_chunking [OF pos, of "[49, 50, 51, 52, 53, 54, 55, 56, 57, 48]"]
    by blast
  from c(1) eq have "chunks = [[49, 50, 51], [52, 53, 54], [55, 56, 57], [48]]" by simp
  with c(2) have
    "\<lceil>real (length [49, 50, 51, 52, 53, 54, 55, 56, 57, 48 :: byte]) / real_of_int 3\<rceil> = 4"
    by simp
  with pos eq show ?thesis by simp
qed

text \<open>
  C1 as stated fails: there are an original and a different target, both of 25 bytes, for
  which \<open>generateInstructions\<close> with chunk size 25 returns the single instruction
  \<open>CopyRef 0\<close>, and rebuilding from it returns the original, not the target. The two
  buffers are a collision of both checksums; they exist by counting, and no such pair is
  written down here.
\<close>

theorem C1_roundtrip_counterexample:
  "\<exists>original target.
     length original = 25 \<and> length target = 25 \<and> original \<noteq> target \<and>
     generateInstructions original target 25 = Some [CopyRef 0] \<and>
     rebuildTargetFromOriginal original [CopyRef 0] 25 = Some (Inr original)"
proof -
  from checksum_pigeonhole obtain a b where ab:
    "length a = 25" "length b = 25" "checksumCollision a b" by blast
  then have "generateInstructions a b 25 = Some [CopyRef 0] \<and>
         rebuildTargetFromOriginal a [CopyRef 0] 25 = Some (Inr a)"
    by (intro collision_breaks_roundtrip) (simp_all add: checksumCollision_def)
  then show ?thesis using ab by (auto simp: checksumCollision_def)
qed

text \<open>
  C1, as amended. For a positive chunk size, when no chunk of the original and window of
  the target are different byte sequences with the same weak and the same strong checksum,
  \<open>generateInstructions\<close> returns, and \<open>rebuildTargetFromOriginal\<close> on the original
  and those instructions returns the target byte for byte. Empty buffers are covered.
\<close>

theorem C1_roundtrip_without_collision:
  assumes "0 < chunkSizeBytes"
    and "divideToChunks originalData chunkSizeBytes = Some originalChunks"
    and "\<forall>c \<in> set originalChunks. \<forall>w \<in> set (targetWindows targetData chunkSizeBytes).
           \<not> checksumCollision c w"
  shows "\<exists>instructions.
           generateInstructions originalData targetData chunkSizeBytes = Some instructions \<and>
           rebuildTargetFromOriginal originalData instructions chunkSizeBytes =
             Some (Inr targetData)"
proof -
  let ?m = "buildChecksumMap originalChunks"
  let ?es = "scanEvents ?m targetData chunkSizeBytes 0"
  have chunks: "originalChunks = blocksOf (nat chunkSizeBytes) originalData"
    using assms(1,2) by (simp add: divideToChunks_eq)
  have gen: "generateInstructions originalData targetData chunkSizeBytes = Some (coalesce ?es)"
    using assms(1) by (simp add: generateInstructions_eq chunks)
  have sound: "originalChunks ! nat (index e) =
               subarray targetData p (p + chunkSizeBytes)"
    if p: "0 \<le> p" "p \<le> int (length targetData) - chunkSizeBytes"
      and mw: "matchWindow ?m (subarray targetData p (p + chunkSizeBytes)) = Some e"
    for p e
  proof -
    let ?w = "subarray targetData p (p + chunkSizeBytes)"
    from matchWindow_build [OF mw] obtain i where i: "i < length originalChunks"
      "index e = int i"
      "calculateWeakBlockChecksum (originalChunks ! i) = calculateWeakBlockChecksum ?w"
      "calculateStrongBlockChecksum (originalChunks ! i) = calculateStrongBlockChecksum ?w"
      by blast
    have "originalChunks ! i \<in> set originalChunks" using i(1) by simp
    moreover have "?w \<in> set (targetWindows targetData chunkSizeBytes)"
      using p by (rule targetWindows_mem)
    ultimately have "\<not> checksumCollision (originalChunks ! i) ?w" using assms(3) by blast
    then have "originalChunks ! i = ?w" using i(3,4) by (simp add: checksumCollision_def)
    then show ?thesis using i(2) by simp
  qed
  have "concat (map (eventBytes originalChunks) ?es) = drop (nat 0) targetData"
  proof (rule scanEvents_bytes)
    show "0 < chunkSizeBytes" by (rule assms(1))
    show "(0::int) \<le> 0" by simp
    show "originalChunks ! nat (index e) = subarray targetData p (p + chunkSizeBytes)"
      if "0 \<le> p" "p \<le> int (length targetData) - chunkSizeBytes"
        "matchWindow ?m (subarray targetData p (p + chunkSizeBytes)) = Some e" for p e
      using that by (rule sound)
  qed
  then have bytes: "concat (map (eventBytes originalChunks) ?es) = targetData" by simp
  have range: "\<forall>n. Matched n \<in> set ?es \<longrightarrow> 0 \<le> n \<and> n < int (length originalChunks)"
    using scanEvents_index_range by blast
  have "rebuildTargetFromOriginal originalData (coalesce ?es) chunkSizeBytes =
        Some (bufferConcat (map (rebuildStep originalChunks) (coalesce ?es)))"
    using assms(2) by (simp add: rebuildTargetFromOriginal_def)
  also have "\<dots> = Some (Inr targetData)"
    by (simp only: rebuild_coalesce [OF range] bytes)
  finally show ?thesis using gen by blast
qed

text \<open>C1 at original \<open>1 2 3 4\<close>, target \<open>1 2 9 3 4\<close>, chunk size 2.\<close>

theorem C1_roundtrip_without_collision_witness:
  "generateInstructions [1, 2, 3, 4] [1, 2, 9, 3, 4] 2 = Some [CopyRef 0, Literal [9], CopyRef 1] \<and>
   rebuildTargetFromOriginal [1, 2, 3, 4] [CopyRef 0, Literal [9], CopyRef 1] 2 =
     Some (Inr [1, 2, 9, 3, 4])"
proof -
  have pos: "(0::int) < 2" by simp
  have chunks: "divideToChunks [1, 2, 3, 4] 2 = Some [[1, 2], [3, 4]]"
    by (simp add: divideToChunks_eq)
  obtain instructions where
    "generateInstructions [1, 2, 3, 4] [1, 2, 9, 3, 4] 2 = Some instructions"
    "rebuildTargetFromOriginal [1, 2, 3, 4] instructions 2 = Some (Inr [1, 2, 9, 3, 4])"
    using C1_roundtrip_without_collision [OF pos chunks example_no_collision] by blast
  then show ?thesis by (simp add: example_generate)
qed

text \<open>
  C9. For a positive chunk size, every \<open>CopyRef\<close> index in the output of
  \<open>generateInstructions\<close> is at least 0 and less than the number of chunks
  \<open>divideToChunks\<close> returns for the original, and \<open>rebuildTargetFromOriginal\<close> on that
  output returns bytes, never the error of a reference out of range.
\<close>

theorem C9_copy_indices_in_range:
  assumes "0 < chunkSizeBytes"
  shows "\<exists>originalChunks instructions.
           divideToChunks originalData chunkSizeBytes = Some originalChunks \<and>
           generateInstructions originalData targetData chunkSizeBytes = Some instructions \<and>
           (\<forall>n. CopyRef n \<in> set instructions \<longrightarrow> 0 \<le> n \<and> n < int (length originalChunks)) \<and>
           (\<exists>bytes. rebuildTargetFromOriginal originalData instructions chunkSizeBytes =
                      Some (Inr bytes))"
proof -
  let ?chunks = "blocksOf (nat chunkSizeBytes) originalData"
  let ?es = "scanEvents (buildChecksumMap ?chunks) targetData chunkSizeBytes 0"
  have div: "divideToChunks originalData chunkSizeBytes = Some ?chunks"
    using assms by (rule divideToChunks_eq)
  have gen: "generateInstructions originalData targetData chunkSizeBytes = Some (coalesce ?es)"
    using assms by (rule generateInstructions_eq)
  have range: "\<forall>n. Matched n \<in> set ?es \<longrightarrow> 0 \<le> n \<and> n < int (length ?chunks)"
    using scanEvents_index_range by blast
  then have idx: "\<forall>n. CopyRef n \<in> set (coalesce ?es) \<longrightarrow> 0 \<le> n \<and> n < int (length ?chunks)"
    using coalesce_CopyRef by blast
  have "rebuildTargetFromOriginal originalData (coalesce ?es) chunkSizeBytes =
        Some (Inr (concat (map (eventBytes ?chunks) ?es)))"
    using rebuild_coalesce [OF range] by (simp add: rebuildTargetFromOriginal_def div)
  with div gen idx show ?thesis by blast
qed

text \<open>C9 at original \<open>1 2 3 4\<close>, target \<open>1 2 9 3 4\<close>, chunk size 2.\<close>

theorem C9_copy_indices_in_range_witness:
  "generateInstructions [1, 2, 3, 4] [1, 2, 9, 3, 4] 2 = Some [CopyRef 0, Literal [9], CopyRef 1] \<and>
   divideToChunks [1, 2, 3, 4] 2 = Some [[1, 2], [3, 4]] \<and>
   (0::int) < int (length [[1, 2], [3, 4 :: byte]]) \<and> (1::int) < int (length [[1, 2], [3, 4 :: byte]])"
proof -
  have pos: "(0::int) < 2" by simp
  obtain originalChunks instructions where w:
    "divideToChunks [1, 2, 3, 4] 2 = Some originalChunks"
    "generateInstructions [1, 2, 3, 4] [1, 2, 9, 3, 4] 2 = Some instructions"
    "\<forall>n. CopyRef n \<in> set instructions \<longrightarrow> 0 \<le> n \<and> n < int (length originalChunks)"
    using C9_copy_indices_in_range [OF pos, of "[1, 2, 3, 4]" "[1, 2, 9, 3, 4]"] by blast
  have "instructions = [CopyRef 0, Literal [9], CopyRef 1]"
    using w(2) by (simp add: example_generate)
  moreover have "originalChunks = [[1, 2], [3, 4]]"
    using w(1) by (simp add: divideToChunks_eq)
  ultimately show ?thesis using w by simp
qed

text \<open>
  C10. For a positive chunk size, every \<open>Literal\<close> in the output of
  \<open>generateInstructions\<close> holds at least one byte.
\<close>

theorem C10_literals_not_empty:
  assumes "0 < chunkSizeBytes"
  shows "\<exists>instructions.
           generateInstructions originalData targetData chunkSizeBytes = Some instructions \<and>
           (\<forall>bytes. Literal bytes \<in> set instructions \<longrightarrow> bytes \<noteq> [])"
  using assms coalesce_Literal by (auto simp: generateInstructions_eq)

text \<open>C10 at original \<open>1 2 3 4\<close>, target \<open>1 2 9 3 4\<close>, chunk size 2.\<close>

theorem C10_literals_not_empty_witness:
  "generateInstructions [1, 2, 3, 4] [1, 2, 9, 3, 4] 2 = Some [CopyRef 0, Literal [9], CopyRef 1] \<and>
   [9 :: byte] \<noteq> []"
proof -
  have pos: "(0::int) < 2" by simp
  obtain instructions where w:
    "generateInstructions [1, 2, 3, 4] [1, 2, 9, 3, 4] 2 = Some instructions"
    "\<forall>bytes. Literal bytes \<in> set instructions \<longrightarrow> bytes \<noteq> []"
    using C10_literals_not_empty [OF pos, of "[1, 2, 3, 4]" "[1, 2, 9, 3, 4]"] by blast
  have "instructions = [CopyRef 0, Literal [9], CopyRef 1]"
    using w(1) by (simp add: example_generate)
  with w show ?thesis by simp
qed

text \<open>
  C8. For a positive chunk size, an empty target gives the empty instruction sequence, and
  a non-empty target shorter than the chunk size gives exactly one \<open>Literal\<close> holding
  the whole target.
\<close>

theorem C8_empty_and_short_target:
  assumes "0 < chunkSizeBytes"
  shows "generateInstructions originalData [] chunkSizeBytes = Some [] \<and>
         (targetData \<noteq> [] \<and> int (length targetData) < chunkSizeBytes \<longrightarrow>
            generateInstructions originalData targetData chunkSizeBytes =
              Some [Literal targetData])"
proof
  show "generateInstructions originalData [] chunkSizeBytes = Some []"
    using assms by (simp add: generateInstructions_eq scanEvents.simps)
  show "targetData \<noteq> [] \<and> int (length targetData) < chunkSizeBytes \<longrightarrow>
          generateInstructions originalData targetData chunkSizeBytes = Some [Literal targetData]"
  proof
    assume a: "targetData \<noteq> [] \<and> int (length targetData) < chunkSizeBytes"
    have "scanEvents (buildChecksumMap (blocksOf (nat chunkSizeBytes) originalData))
            targetData chunkSizeBytes 0 = map Unmatched (drop (nat 0) targetData)"
      using assms a by (intro scanEvents_tail) simp_all
    then show "generateInstructions originalData targetData chunkSizeBytes =
               Some [Literal targetData]"
      using assms a by (simp add: generateInstructions_eq coalesce_map_Unmatched)
  qed
qed

text \<open>C8 at original \<open>1 2 3 4\<close>, targets empty and \<open>1 2\<close>, chunk size 3.\<close>

theorem C8_empty_and_short_target_witness:
  "generateInstructions [1, 2, 3, 4] [] 3 = Some [] \<and>
   generateInstructions [1, 2, 3, 4] [1, 2] 3 = Some [Literal [1, 2]]"
proof -
  have pos: "(0::int) < 3" by simp
  have short: "[1, 2 :: byte] \<noteq> [] \<and> int (length [1, 2 :: byte]) < 3" by simp
  from C8_empty_and_short_target [OF pos, of "[1, 2, 3, 4]" "[1, 2]"] short
  show ?thesis by blast
qed

text \<open>
  C7. For a positive chunk size, the output of \<open>generateInstructions\<close> is the decisions
  of the scan with every maximal run of consecutive non-matching bytes turned into one
  \<open>Literal\<close> holding exactly those bytes in order; no two \<open>Literal\<close> instructions
  are adjacent in it.
\<close>

theorem C7_literal_coalescing:
  assumes "0 < chunkSizeBytes"
  shows "\<exists>originalChunks instructions.
           divideToChunks originalData chunkSizeBytes = Some originalChunks \<and>
           generateInstructions originalData targetData chunkSizeBytes = Some instructions \<and>
           instructions =
             coalesce (scanEvents (buildChecksumMap originalChunks) targetData chunkSizeBytes 0) \<and>
           (\<forall>k a b. Suc k < length instructions \<and> instructions ! k = Literal a \<longrightarrow>
                    instructions ! Suc k \<noteq> Literal b)"
proof -
  let ?chunks = "blocksOf (nat chunkSizeBytes) originalData"
  let ?es = "scanEvents (buildChecksumMap ?chunks) targetData chunkSizeBytes 0"
  have "divideToChunks originalData chunkSizeBytes = Some ?chunks"
    using assms by (rule divideToChunks_eq)
  moreover have "generateInstructions originalData targetData chunkSizeBytes = Some (coalesce ?es)"
    using assms by (rule generateInstructions_eq)
  moreover have "\<forall>k a b. Suc k < length (coalesce ?es) \<and> coalesce ?es ! k = Literal a \<longrightarrow>
                    coalesce ?es ! Suc k \<noteq> Literal b"
    using literalsApart_nth [OF literalsApart_coalesce] by blast
  ultimately show ?thesis by blast
qed

text \<open>A target with a run of three differing bytes between two matches.\<close>

lemma example_generate_run:
  "generateInstructions [1, 2, 3, 4] [1, 2, 9, 8, 7, 3, 4] 2 =
     Some [CopyRef 0, Literal [9, 8, 7], CopyRef 1]"
  by (simp add: generateInstructions_eq scan_eval)

lemma example_events_run:
  "scanEvents (buildChecksumMap [[1, 2], [3, 4]]) [1, 2, 9, 8, 7, 3, 4] 2 0 =
     [Matched 0, Unmatched 9, Unmatched 8, Unmatched 7, Matched 1]"
  by (simp add: scan_eval)

text \<open>C7 at original \<open>1 2 3 4\<close>, target \<open>1 2 9 8 7 3 4\<close>, chunk size 2.\<close>

theorem C7_literal_coalescing_witness:
  "generateInstructions [1, 2, 3, 4] [1, 2, 9, 8, 7, 3, 4] 2 =
     Some [CopyRef 0, Literal [9, 8, 7], CopyRef 1] \<and>
   scanEvents (buildChecksumMap [[1, 2], [3, 4]]) [1, 2, 9, 8, 7, 3, 4] 2 0 =
     [Matched 0, Unmatched 9, Unmatched 8, Unmatched 7, Matched 1] \<and>
   coalesce [Matched 0, Unmatched 9, Unmatched 8, Unmatched 7, Matched 1] =
     [CopyRef 0, Literal [9, 8, 7], CopyRef 1]"
proof -
  have pos: "(0::int) < 2" by simp
  obtain originalChunks instructions where w:
    "divideToChunks [1, 2, 3, 4] 2 = Some originalChunks"
    "generateInstructions [1, 2, 3, 4] [1, 2, 9, 8, 7, 3, 4] 2 = Some instructions"
    "instructions =
       coalesce (scanEvents (buildChecksumMap originalChunks) [1, 2, 9, 8, 7, 3, 4] 2 0)"
    using C7_literal_coalescing [OF pos, of "[1, 2, 3, 4]" "[1, 2, 9, 8, 7, 3, 4]"] by blast
  have c: "originalChunks = [[1, 2], [3, 4]]"
    using w(1) by (simp add: divideToChunks_eq)
  have i: "instructions = [CopyRef 0, Literal [9, 8, 7], CopyRef 1]"
    using w(2) by (simp add: example_generate_run)
  from w(3) have "coalesce [Matched 0, Unmatched 9, Unmatched 8, Unmatched 7, Matched 1] =
     [CopyRef 0, Literal [9, 8, 7], CopyRef 1]"
    unfolding c i example_events_run by simp
  then show ?thesis using example_generate_run example_events_run by simp
qed

text \<open>
  C5. For a positive chunk size, \<open>rebuildTargetFromOriginal\<close> raises an error (the
  \<open>TypeError\<close> of \<open>Buffer.concat\<close> on an undefined element) when some \<open>CopyRef\<close>
  index is at least the number of chunks of the original, and when every \<open>CopyRef\<close>
  index is in range it returns the referenced chunks and the literal bytes concatenated
  in instruction order.
\<close>

theorem C5_rebuild_out_of_range:
  assumes "0 < chunkSizeBytes"
  shows "\<exists>originalChunks.
           divideToChunks originalData chunkSizeBytes = Some originalChunks \<and>
           ((\<exists>n. CopyRef n \<in> set instructions \<and> int (length originalChunks) \<le> n) \<longrightarrow>
              rebuildTargetFromOriginal originalData instructions chunkSizeBytes =
                Some (Inl TypeError)) \<and>
           ((\<forall>n. CopyRef n \<in> set instructions \<longrightarrow> 0 \<le> n \<and> n < int (length originalChunks)) \<longrightarrow>
              rebuildTargetFromOriginal originalData instructions chunkSizeBytes =
                Some (Inr (concat (map (instructionBytes originalChunks) instructions))))"
proof -
  let ?chunks = "blocksOf (nat chunkSizeBytes) originalData"
  have div: "divideToChunks originalData chunkSizeBytes = Some ?chunks"
    using assms by (rule divideToChunks_eq)
  have reb: "rebuildTargetFromOriginal originalData instructions chunkSizeBytes =
             Some (bufferConcat (map (rebuildStep ?chunks) instructions))"
    by (simp add: rebuildTargetFromOriginal_def div)
  have "(\<exists>n. CopyRef n \<in> set instructions \<and> int (length ?chunks) \<le> n) \<longrightarrow>
          rebuildTargetFromOriginal originalData instructions chunkSizeBytes = Some (Inl TypeError)"
    using bufferConcat_out_of_range reb by auto
  moreover have "(\<forall>n. CopyRef n \<in> set instructions \<longrightarrow> 0 \<le> n \<and> n < int (length ?chunks)) \<longrightarrow>
          rebuildTargetFromOriginal originalData instructions chunkSizeBytes =
            Some (Inr (concat (map (instructionBytes ?chunks) instructions)))"
    using bufferConcat_in_range reb by auto
  ultimately show ?thesis using div by blast
qed

text \<open>C5 at original \<open>1 2 3\<close>, chunk size 2, with a reference out of range and without.\<close>

theorem C5_rebuild_out_of_range_witness:
  "rebuildTargetFromOriginal [1, 2, 3] [CopyRef 0, Literal [9], CopyRef 2] 2 = Some (Inl TypeError) \<and>
   rebuildTargetFromOriginal [1, 2, 3] [CopyRef 0, Literal [9], CopyRef 1] 2 =
     Some (Inr [1, 2, 9, 3]) \<and>
   divideToChunks [1, 2, 3] 2 = Some [[1, 2], [3]]"
proof -
  have pos: "(0::int) < 2" by simp
  have div: "divideToChunks [1, 2, 3] 2 = Some [[1, 2], [3]]"
    by (simp add: divideToChunks_eq)
  obtain c1 where a:
    "divideToChunks [1, 2, 3] 2 = Some c1"
    "(\<exists>n. CopyRef n \<in> set [CopyRef 0, Literal [9], CopyRef 2] \<and> int (length c1) \<le> n) \<longrightarrow>
       rebuildTargetFromOriginal [1, 2, 3] [CopyRef 0, Literal [9], CopyRef 2] 2 =
         Some (Inl TypeError)"
    using C5_rebuild_out_of_range [OF pos, of "[1, 2, 3]" "[CopyRef 0, Literal [9], CopyRef 2]"]
    by blast
  obtain c2 where b:
    "divideToChunks [1, 2, 3] 2 = Some c2"
    "(\<forall>n. CopyRef n \<in> set [CopyRef 0, Literal [9], CopyRef 1] \<longrightarrow> 0 \<le> n \<and> n < int (length c2)) \<longrightarrow>
       rebuildTargetFromOriginal [1, 2, 3] [CopyRef 0, Literal [9], CopyRef 1] 2 =
         Some (Inr (concat (map (instructionBytes c2) [CopyRef 0, Literal [9], CopyRef 1])))"
    using C5_rebuild_out_of_range [OF pos, of "[1, 2, 3]" "[CopyRef 0, Literal [9], CopyRef 1]"]
    by blast
  have c1: "c1 = [[1, 2], [3]]" using a(1) div by simp
  have c2: "c2 = [[1, 2], [3]]" using b(1) div by simp
  have "rebuildTargetFromOriginal [1, 2, 3] [CopyRef 0, Literal [9], CopyRef 2] 2 =
          Some (Inl TypeError)"
  proof -
    have "\<exists>n. CopyRef n \<in> set [CopyRef 0, Literal [9], CopyRef 2] \<and>
              int (length [[1, 2], [3 :: byte]]) \<le> n"
      by (intro exI [of _ 2]) simp
    then show ?thesis using a(2) unfolding c1 by blast
  qed
  moreover have "rebuildTargetFromOriginal [1, 2, 3] [CopyRef 0, Literal [9], CopyRef 1] 2 =
     Some (Inr [1, 2, 9, 3])"
    using b(2) unfolding c2 by simp
  ultimately show ?thesis using div by simp
qed

text \<open>
  C6. For a positive chunk size, both scans visit the cursor positions of the
  specification and decide as it says. The positions start at 0 and stay inside the
  target; the step at a position is a match exactly when a whole window fits there, the
  window's weak checksum is a key of the index, and the entry stored there has the
  window's strong checksum; after a match the next position is \<open>chunkSizeBytes\<close>
  further, after no match it is one further; and the steps go on until the end of the
  target is reached. \<open>findDifferingChunks\<close> returns the windows at the steps that
  are no match and where a window fits, in order, and \<open>generateInstructions\<close>
  returns the coalesced decisions: the stored index for each match, the one byte under
  the cursor for each step that is no match.
\<close>

theorem C6_match_rule_and_cursor:
  assumes "0 < chunkSizeBytes"
    and "divideToChunks originalData chunkSizeBytes = Some originalChunks"
    and "checksumMap = buildChecksumMap originalChunks"
    and "steps = cursorSteps checksumMap targetData chunkSizeBytes 0"
  shows "(targetData \<noteq> [] \<longrightarrow> steps \<noteq> [] \<and> fst (hd steps) = 0) \<and>
         (\<forall>k < length steps.
            0 \<le> fst (steps ! k) \<and> fst (steps ! k) < int (length targetData) \<and>
            (snd (steps ! k) \<longleftrightarrow>
               fst (steps ! k) \<le> int (length targetData) - chunkSizeBytes \<and>
               (\<exists>entry.
                  checksumMap (calculateWeakBlockChecksum
                    (subarray targetData (fst (steps ! k)) (fst (steps ! k) + chunkSizeBytes))) =
                    Some entry \<and>
                  strong entry = calculateStrongBlockChecksum
                    (subarray targetData (fst (steps ! k)) (fst (steps ! k) + chunkSizeBytes))))) \<and>
         (\<forall>k. Suc k < length steps \<longrightarrow>
            fst (steps ! Suc k) =
              fst (steps ! k) + (if snd (steps ! k) then chunkSizeBytes else 1)) \<and>
         (steps \<noteq> [] \<longrightarrow>
            int (length targetData) \<le>
              fst (last steps) + (if snd (last steps) then chunkSizeBytes else 1)) \<and>
         findDifferingChunks originalData targetData chunkSizeBytes =
           Some (map (\<lambda>s. subarray targetData (fst s) (fst s + chunkSizeBytes))
                   (filter (\<lambda>s. fst s \<le> int (length targetData) - chunkSizeBytes \<and> \<not> snd s)
                      steps)) \<and>
         generateInstructions originalData targetData chunkSizeBytes =
           Some (coalesce (map (stepEvent checksumMap targetData chunkSizeBytes) steps))"
proof -
  have 1: "targetData \<noteq> [] \<longrightarrow> steps \<noteq> [] \<and> fst (hd steps) = 0"
  proof
    assume "targetData \<noteq> []"
    then have "0 < chunkSizeBytes \<and> (0::int) \<le> 0 \<and> 0 < int (length targetData)"
      using assms(1) by simp
    then have ne: "steps \<noteq> []"
      unfolding assms(4) by (simp only: cursorSteps_nonempty)
    then have "fst (hd steps) = 0" unfolding assms(4) by (rule cursorSteps_hd)
    with ne show "steps \<noteq> [] \<and> fst (hd steps) = 0" by simp
  qed
  have 2: "0 \<le> fst (steps ! k) \<and> fst (steps ! k) < int (length targetData) \<and>
            (snd (steps ! k) \<longleftrightarrow>
               fst (steps ! k) \<le> int (length targetData) - chunkSizeBytes \<and>
               (\<exists>entry.
                  checksumMap (calculateWeakBlockChecksum
                    (subarray targetData (fst (steps ! k)) (fst (steps ! k) + chunkSizeBytes))) =
                    Some entry \<and>
                  strong entry = calculateStrongBlockChecksum
                    (subarray targetData (fst (steps ! k)) (fst (steps ! k) + chunkSizeBytes))))"
    if "k < length steps" for k
  proof -
    from that have mem: "steps ! k \<in> set (cursorSteps checksumMap targetData chunkSizeBytes 0)"
      by (simp add: assms(4))
    from cursorSteps_range [OF mem] cursorSteps_decision [OF mem]
    show ?thesis by (simp add: windowMatches_iff)
  qed
  have 3: "\<forall>k. Suc k < length steps \<longrightarrow>
            fst (steps ! Suc k) =
              fst (steps ! k) + (if snd (steps ! k) then chunkSizeBytes else 1)"
    unfolding assms(4) using cursorSteps_advance by blast
  have 4: "steps \<noteq> [] \<longrightarrow>
            int (length targetData) \<le>
              fst (last steps) + (if snd (last steps) then chunkSizeBytes else 1)"
    unfolding assms(4) using cursorSteps_end by blast
  have 5: "findDifferingChunks originalData targetData chunkSizeBytes =
           Some (map (\<lambda>s. subarray targetData (fst s) (fst s + chunkSizeBytes))
                   (filter (\<lambda>s. fst s \<le> int (length targetData) - chunkSizeBytes \<and> \<not> snd s)
                      steps))"
    using findLoop_steps [OF assms(1), of 0 checksumMap targetData "[]"]
    by (simp add: findDifferingChunks_def assms(2,3,4))
  have "chunks = blocksOf (nat chunkSizeBytes) originalData"
    if "divideToChunks originalData chunkSizeBytes = Some chunks" for chunks
    using that assms(1) by (simp add: divideToChunks_eq)
  then have 6: "generateInstructions originalData targetData chunkSizeBytes =
           Some (coalesce (map (stepEvent checksumMap targetData chunkSizeBytes) steps))"
    using assms scanEvents_steps [OF assms(1), of 0 checksumMap targetData]
    by (simp add: generateInstructions_eq)
  from 1 2 3 4 5 6 show ?thesis by blast
qed

text \<open>
  C6 at original \<open>1 2 3 4\<close>, target \<open>1 2 9 3 4\<close>, chunk size 2: a match at
  position 0, no match at position 2, a match at position 3.
\<close>

theorem C6_match_rule_and_cursor_witness:
  "cursorSteps (buildChecksumMap [[1, 2], [3, 4]]) [1, 2, 9, 3, 4] 2 0 =
     [(0, True), (2, False), (3, True)] \<and>
   findDifferingChunks [1, 2, 3, 4] [1, 2, 9, 3, 4] 2 = Some [[9, 3]] \<and>
   generateInstructions [1, 2, 3, 4] [1, 2, 9, 3, 4] 2 =
     Some [CopyRef 0, Literal [9], CopyRef 1]"
proof -
  have pos: "(0::int) < 2" by simp
  have div: "divideToChunks [1, 2, 3, 4] 2 = Some [[1, 2], [3, 4]]"
    by (simp add: divideToChunks_eq)
  from C6_match_rule_and_cursor [OF pos div refl refl, of "[1, 2, 9, 3, 4]"]
  have f: "findDifferingChunks [1, 2, 3, 4] [1, 2, 9, 3, 4] 2 =
           Some (map (\<lambda>s. subarray [1, 2, 9, 3, 4] (fst s) (fst s + 2))
                   (filter (\<lambda>s. fst s \<le> int (length [1, 2, 9, 3, 4 :: byte]) - 2 \<and> \<not> snd s)
                      (cursorSteps (buildChecksumMap [[1, 2], [3, 4]]) [1, 2, 9, 3, 4] 2 0)))"
    and g: "generateInstructions [1, 2, 3, 4] [1, 2, 9, 3, 4] 2 =
           Some (coalesce (map (stepEvent (buildChecksumMap [[1, 2], [3, 4]]) [1, 2, 9, 3, 4] 2)
              (cursorSteps (buildChecksumMap [[1, 2], [3, 4]]) [1, 2, 9, 3, 4] 2 0)))"
    by blast+
  have f': "findDifferingChunks [1, 2, 3, 4] [1, 2, 9, 3, 4] 2 = Some [[9, 3]]"
    unfolding f example_steps by (simp add: subarray_def relativeIndex_def)
  have g': "generateInstructions [1, 2, 3, 4] [1, 2, 9, 3, 4] 2 =
     Some [CopyRef 0, Literal [9], CopyRef 1]"
    unfolding g example_steps example_step_events by simp
  from example_steps f' g' show ?thesis by simp
qed

text \<open>
  C2 as stated fails. For the buffer \<open>5 5 5 5 5\<close> against itself with chunk size 2,
  \<open>generateInstructions\<close> ends with a \<open>Literal\<close> (the trailing byte fills no window)
  and its \<open>CopyRef\<close> indices are 1, 1 rather than 0, 1 (the second of two equal chunks
  owns the index entry). For the buffer \<open>0 2 0 1 0 1\<close> against itself with chunk size
  3, whose two chunks have the same weak checksum and different strong checksums,
  \<open>findDifferingChunks\<close> returns three windows and \<open>generateInstructions\<close> starts
  with a \<open>Literal\<close>.
\<close>

theorem C2_identity_diff_counterexample:
  "generateInstructions [5, 5, 5, 5, 5] [5, 5, 5, 5, 5] 2 =
     Some [CopyRef 1, CopyRef 1, Literal [5]] \<and>
   findDifferingChunks [0, 2, 0, 1, 0, 1] [0, 2, 0, 1, 0, 1] 3 =
     Some [[0, 2, 0], [2, 0, 1], [0, 1, 0]] \<and>
   generateInstructions [0, 2, 0, 1, 0, 1] [0, 2, 0, 1, 0, 1] 3 =
     Some [Literal [0, 2, 0], CopyRef 1]"
proof -
  have 1: "generateInstructions [5, 5, 5, 5, 5] [5, 5, 5, 5, 5] 2 =
     Some [CopyRef 1, CopyRef 1, Literal [5]]"
    by (simp add: generateInstructions_eq scan_eval)
  have 2: "findDifferingChunks [0, 2, 0, 1, 0, 1] [0, 2, 0, 1, 0, 1] 3 =
     Some [[0, 2, 0], [2, 0, 1], [0, 1, 0]]"
    by (simp add: findDifferingChunks_def divideToChunks_eq findLoop.simps matchWindow_def
        buildChecksumMap_def setChecksum_def subarray_def relativeIndex_def weak_eval
        strong_020 strong_101 Let_def)
  have 3: "generateInstructions [0, 2, 0, 1, 0, 1] [0, 2, 0, 1, 0, 1] 3 =
     Some [Literal [0, 2, 0], CopyRef 1]"
    by (simp add: generateInstructions_eq scan_eval strong_020 strong_101)
  from 1 2 3 show ?thesis by simp
qed

text \<open>
  C2, as amended. For a buffer B diffed against itself with a positive chunk size, if any
  two chunks of B with the same weak checksum also have the same strong checksum, then
  \<open>findDifferingChunks\<close> returns the empty sequence, and \<open>generateInstructions\<close>
  returns one \<open>CopyRef\<close> for each full chunk of B, in chunk order, followed, only when
  the length of B is not a multiple of the chunk size, by one \<open>Literal\<close> holding the
  trailing partial chunk. The \<open>CopyRef\<close> for chunk j carries the position of the last
  chunk of B with the weak checksum of chunk j: a position not before j, of a chunk with
  the same weak and the same strong checksum as chunk j. When the weak checksums of the
  chunks of B are pairwise different, the indices are 0, 1, 2, ...
\<close>

theorem C2_identity_diff_amended:
  assumes "0 < chunkSizeBytes"
    and "divideToChunks buffer chunkSizeBytes = Some chunks"
  shows "((\<forall>c\<in>set chunks. \<forall>d\<in>set chunks.
             calculateWeakBlockChecksum c = calculateWeakBlockChecksum d \<longrightarrow>
             calculateStrongBlockChecksum c = calculateStrongBlockChecksum d) \<longrightarrow>
          findDifferingChunks buffer buffer chunkSizeBytes = Some [] \<and>
          generateInstructions buffer buffer chunkSizeBytes =
            Some (map (\<lambda>j. CopyRef (int (lastWeakIndex chunks (chunks ! j))))
                    [0..<length buffer div nat chunkSizeBytes] @
                  (if length buffer mod nat chunkSizeBytes = 0 then []
                   else [Literal (last chunks)])) \<and>
          (\<forall>j < length buffer div nat chunkSizeBytes.
             j \<le> lastWeakIndex chunks (chunks ! j) \<and>
             lastWeakIndex chunks (chunks ! j) < length chunks \<and>
             calculateWeakBlockChecksum (chunks ! lastWeakIndex chunks (chunks ! j)) =
               calculateWeakBlockChecksum (chunks ! j) \<and>
             calculateStrongBlockChecksum (chunks ! lastWeakIndex chunks (chunks ! j)) =
               calculateStrongBlockChecksum (chunks ! j))) \<and>
         (distinct (map calculateWeakBlockChecksum chunks) \<longrightarrow>
          generateInstructions buffer buffer chunkSizeBytes =
            Some (map (\<lambda>k. CopyRef (int k)) [0..<length buffer div nat chunkSizeBytes] @
                  (if length buffer mod nat chunkSizeBytes = 0 then []
                   else [Literal (last chunks)])))"
proof -
  define n where "n = nat chunkSizeBytes"
  have n: "0 < n" "chunkSizeBytes = int n" using assms(1) by (simp_all add: n_def)
  define q where "q = length buffer div n"
  have chunks: "chunks = blocksOf n buffer"
    using assms by (simp add: divideToChunks_eq n_def)
  have window: "j < length chunks \<and> chunks ! j = take n (drop (j * n) buffer)"
    if "Suc j * n \<le> length buffer" for j
    using full_blocks [OF n(1) that] by (simp add: chunks)
  have full: "j < length chunks" if "j < q" for j
  proof -
    from that have "Suc j * n \<le> q * n" by (intro mult_le_mono1) simp
    also have "q * n \<le> length buffer" by (simp add: q_def)
    finally show ?thesis using window by blast
  qed
  have tail: "drop (q * n) buffer = (if length buffer mod n = 0 then [] else last chunks)"
  proof (cases "length buffer mod n = 0")
    case True
    then have "q * n = length buffer"
      using div_mult_mod_eq [of "length buffer" n] by (simp add: q_def)
    then show ?thesis using True by simp
  next
    case False
    then show ?thesis using blocksOf_last_partial [OF n(1) False] by (simp add: chunks q_def)
  qed
  have ne: "length buffer mod n \<noteq> 0 \<Longrightarrow> last chunks \<noteq> []"
  proof -
    assume r: "length buffer mod n \<noteq> 0"
    have "length (drop (q * n) buffer) = length buffer mod n"
      by (simp add: minus_div_mult_eq_mod q_def)
    then show "last chunks \<noteq> []" using tail r by auto
  qed
  have gen: "generateInstructions buffer buffer chunkSizeBytes =
            Some (map (\<lambda>j. CopyRef (f j)) [0..<length buffer div nat chunkSizeBytes] @
                  (if length buffer mod nat chunkSizeBytes = 0 then []
                   else [Literal (last chunks)]))"
    if hit: "\<And>j. Suc j * nat chunkSizeBytes \<le> length buffer \<Longrightarrow>
               \<exists>e. matchWindow (buildChecksumMap chunks)
                 (take (nat chunkSizeBytes) (drop (j * nat chunkSizeBytes) buffer)) = Some e \<and>
               index e = f j" for f
  proof -
    have ev: "scanEvents (buildChecksumMap chunks) buffer chunkSizeBytes
                (int (0 * nat chunkSizeBytes)) =
              map (\<lambda>j. Matched (f j)) [0..<length buffer div nat chunkSizeBytes] @
              map Unmatched (drop (length buffer div nat chunkSizeBytes * nat chunkSizeBytes) buffer)"
      by (rule scanEvents_all_match [OF assms(1) hit]) simp_all
    have "generateInstructions buffer buffer chunkSizeBytes =
          Some (coalesce (scanEvents (buildChecksumMap chunks) buffer chunkSizeBytes 0))"
      using assms(1) by (simp add: generateInstructions_eq chunks n_def)
    also have "scanEvents (buildChecksumMap chunks) buffer chunkSizeBytes 0 =
              map (\<lambda>j. Matched (f j)) [0..<q] @
              map Unmatched (if length buffer mod n = 0 then [] else last chunks)"
      using ev tail by (simp add: n_def q_def)
    finally show ?thesis
      using ne by (simp add: coalesce_matches_then_tail n_def q_def)
  qed
  have A: "findDifferingChunks buffer buffer chunkSizeBytes = Some [] \<and>
          generateInstructions buffer buffer chunkSizeBytes =
            Some (map (\<lambda>j. CopyRef (int (lastWeakIndex chunks (chunks ! j))))
                    [0..<length buffer div nat chunkSizeBytes] @
                  (if length buffer mod nat chunkSizeBytes = 0 then []
                   else [Literal (last chunks)])) \<and>
          (\<forall>j < length buffer div nat chunkSizeBytes.
             j \<le> lastWeakIndex chunks (chunks ! j) \<and>
             lastWeakIndex chunks (chunks ! j) < length chunks \<and>
             calculateWeakBlockChecksum (chunks ! lastWeakIndex chunks (chunks ! j)) =
               calculateWeakBlockChecksum (chunks ! j) \<and>
             calculateStrongBlockChecksum (chunks ! lastWeakIndex chunks (chunks ! j)) =
               calculateStrongBlockChecksum (chunks ! j))"
    if agree: "\<forall>c\<in>set chunks. \<forall>d\<in>set chunks.
             calculateWeakBlockChecksum c = calculateWeakBlockChecksum d \<longrightarrow>
             calculateStrongBlockChecksum c = calculateStrongBlockChecksum d"
  proof (intro conjI allI impI)
    have hit: "\<exists>e. matchWindow (buildChecksumMap chunks)
                 (take (nat chunkSizeBytes) (drop (j * nat chunkSizeBytes) buffer)) = Some e \<and>
               index e = int (lastWeakIndex chunks (chunks ! j))"
      if "Suc j * nat chunkSizeBytes \<le> length buffer" for j
    proof -
      from that window [of j] have j: "j < length chunks"
        "take n (drop (j * n) buffer) = chunks ! j" by (simp_all add: n_def)
      from matchWindow_agreeing_last [OF agree j(1)] show ?thesis using j(2) by (simp add: n_def)
    qed
    have hit': "matchWindow (buildChecksumMap chunks)
                 (take (nat chunkSizeBytes) (drop (j * nat chunkSizeBytes) buffer)) \<noteq> None"
      if "Suc j * nat chunkSizeBytes \<le> length buffer" for j
      using hit [OF that] by auto
    have "findLoop (buildChecksumMap chunks) buffer chunkSizeBytes (int (0 * nat chunkSizeBytes))
            (subarray buffer (int (0 * nat chunkSizeBytes))
               (int (0 * nat chunkSizeBytes) + chunkSizeBytes)) [] = Some []"
      by (rule findLoop_all_match [OF assms(1) hit']) simp_all
    then show "findDifferingChunks buffer buffer chunkSizeBytes = Some []"
      by (simp add: findDifferingChunks_def assms(2))
    show "generateInstructions buffer buffer chunkSizeBytes =
            Some (map (\<lambda>j. CopyRef (int (lastWeakIndex chunks (chunks ! j))))
                    [0..<length buffer div nat chunkSizeBytes] @
                  (if length buffer mod nat chunkSizeBytes = 0 then []
                   else [Literal (last chunks)]))"
      using hit by (rule gen)
    fix j assume "j < length buffer div nat chunkSizeBytes"
    then have j: "j < length chunks" using full by (simp add: q_def n_def)
    note p = lastWeakIndex_props [OF j]
    show "j \<le> lastWeakIndex chunks (chunks ! j)" using p by simp
    show "lastWeakIndex chunks (chunks ! j) < length chunks" using p by simp
    show w: "calculateWeakBlockChecksum (chunks ! lastWeakIndex chunks (chunks ! j)) =
               calculateWeakBlockChecksum (chunks ! j)" using p by simp
    have "chunks ! lastWeakIndex chunks (chunks ! j) \<in> set chunks" "chunks ! j \<in> set chunks"
      using p j by simp_all
    then show "calculateStrongBlockChecksum (chunks ! lastWeakIndex chunks (chunks ! j)) =
               calculateStrongBlockChecksum (chunks ! j)"
      using agree w by blast
  qed
  have B: "generateInstructions buffer buffer chunkSizeBytes =
            Some (map (\<lambda>k. CopyRef (int k)) [0..<length buffer div nat chunkSizeBytes] @
                  (if length buffer mod nat chunkSizeBytes = 0 then []
                   else [Literal (last chunks)]))"
    if d: "distinct (map calculateWeakBlockChecksum chunks)"
  proof -
    have hit: "\<exists>e. matchWindow (buildChecksumMap chunks)
                 (take (nat chunkSizeBytes) (drop (j * nat chunkSizeBytes) buffer)) = Some e \<and>
               index e = int j"
      if "Suc j * nat chunkSizeBytes \<le> length buffer" for j
    proof -
      from that window [of j] have j: "j < length chunks"
        "take n (drop (j * n) buffer) = chunks ! j" by (simp_all add: n_def)
      from matchWindow_distinct [OF d j(1)] show ?thesis using j(2) by (simp add: n_def)
    qed
    from hit show ?thesis by (rule gen)
  qed
  from A B show ?thesis by blast
qed

lemma example_identity:
  "generateInstructions [1, 2, 3, 4, 5] [1, 2, 3, 4, 5] 2 = Some [CopyRef 0, CopyRef 1, Literal [5]]"
  by (simp add: generateInstructions_eq scan_eval)

text \<open>
  C2 as amended, at the buffer \<open>5 5 5 5 5\<close>, whose two full chunks are equal, and at
  the buffer \<open>1 2 3 4 5\<close>, both with chunk size 2.
\<close>

theorem C2_identity_diff_amended_witness:
  "findDifferingChunks [5, 5, 5, 5, 5] [5, 5, 5, 5, 5] 2 = Some [] \<and>
   generateInstructions [5, 5, 5, 5, 5] [5, 5, 5, 5, 5] 2 =
     Some [CopyRef 1, CopyRef 1, Literal [5]] \<and>
   findDifferingChunks [1, 2, 3, 4, 5] [1, 2, 3, 4, 5] 2 = Some [] \<and>
   generateInstructions [1, 2, 3, 4, 5] [1, 2, 3, 4, 5] 2 =
     Some [CopyRef 0, CopyRef 1, Literal [5]]"
proof -
  have pos: "(0::int) < 2" by simp
  have div5: "divideToChunks [5, 5, 5, 5, 5] 2 = Some [[5, 5], [5, 5], [5]]"
    by (simp add: divideToChunks_eq)
  have agree5: "\<forall>c\<in>set [[5, 5], [5, 5], [5 :: byte]]. \<forall>d\<in>set [[5, 5], [5, 5], [5]].
             calculateWeakBlockChecksum c = calculateWeakBlockChecksum d \<longrightarrow>
             calculateStrongBlockChecksum c = calculateStrongBlockChecksum d"
    by (simp add: weak_eval)
  from C2_identity_diff_amended [OF pos div5] agree5
  have a: "findDifferingChunks [5, 5, 5, 5, 5] [5, 5, 5, 5, 5] 2 = Some []"
    "generateInstructions [5, 5, 5, 5, 5] [5, 5, 5, 5, 5] 2 =
       Some (map (\<lambda>j. CopyRef (int (lastWeakIndex [[5, 5], [5, 5], [5]]
                                        ([[5, 5], [5, 5], [5]] ! j))))
               [0..<length [5, 5, 5, 5, 5 :: byte] div nat 2] @
             (if length [5, 5, 5, 5, 5 :: byte] mod nat 2 = 0 then []
              else [Literal (last [[5, 5], [5, 5], [5]])]))"
    by blast+
  have a2: "generateInstructions [5, 5, 5, 5, 5] [5, 5, 5, 5, 5] 2 =
     Some [CopyRef 1, CopyRef 1, Literal [5]]"
    using a(2) example_repeated by simp
  have div: "divideToChunks [1, 2, 3, 4, 5] 2 = Some [[1, 2], [3, 4], [5]]"
    by (simp add: divideToChunks_eq)
  have agree: "\<forall>c\<in>set [[1, 2], [3, 4], [5 :: byte]]. \<forall>d\<in>set [[1, 2], [3, 4], [5]].
             calculateWeakBlockChecksum c = calculateWeakBlockChecksum d \<longrightarrow>
             calculateStrongBlockChecksum c = calculateStrongBlockChecksum d"
    by (simp add: weak_eval)
  have dist: "distinct (map calculateWeakBlockChecksum [[1, 2], [3, 4], [5]])"
    by (simp add: weak_eval)
  from C2_identity_diff_amended [OF pos div] agree dist
  have b: "findDifferingChunks [1, 2, 3, 4, 5] [1, 2, 3, 4, 5] 2 = Some []"
    "generateInstructions [1, 2, 3, 4, 5] [1, 2, 3, 4, 5] 2 =
       Some (map (\<lambda>k. CopyRef (int k)) [0..<length [1, 2, 3, 4, 5 :: byte] div nat 2] @
                  (if length [1, 2, 3, 4, 5 :: byte] mod nat 2 = 0 then []
                   else [Literal (last [[1, 2], [3, 4], [5]])]))"
    by blast+
  from a(1) a2 b(1) show ?thesis by (simp add: example_identity)
qed

text \<open>
  C4 as stated fails: no operation checks \<open>chunkSizeBytes\<close>. With an empty original
  buffer and a chunk size of 0 or -1 each of the four operations returns a value.
\<close>

theorem C4_no_validation_counterexample:
  "divideToChunks [] 0 = Some [] \<and>
   findDifferingChunks [] [1, 2] 0 = Some [[], [], []] \<and>
   generateInstructions [] [1, 2] (- 1) = Some [Literal [1, 2]] \<and>
   rebuildTargetFromOriginal [] [Literal [1, 2]] 0 = Some (Inr [1, 2])"
proof -
  have d: "divideToChunks [] cs = Some []" for cs
    unfolding divideToChunks_def by (subst divideLoop.simps) simp
  have f: "findDifferingChunks [] [1, 2] 0 = Some [[], [], []]"
    by (simp add: findDifferingChunks_def d buildChecksumMap_def findLoop.simps matchWindow_def
        subarray_def relativeIndex_def)
  have g: "generateInstructions [] [1, 2] (- 1) = Some [Literal [1, 2]]"
    by (simp add: generateInstructions_def d buildChecksumMap_def generateLoop.simps
        matchWindow_def subarray_def relativeIndex_def flushDiffering_def)
  have r: "rebuildTargetFromOriginal [] [Literal [1, 2]] 0 = Some (Inr [1, 2])"
    by (simp add: rebuildTargetFromOriginal_def d rebuildStep_def bufferConcat_def)
  from d f g r show ?thesis by simp
qed

text \<open>
  C4, as amended. No operation rejects a chunk size that is zero or negative. With such a
  chunk size and an empty original buffer, \<open>divideToChunks\<close> returns no chunks;
  \<open>findDifferingChunks\<close> returns one view for each cursor position from 0 to the
  target's length minus the chunk size; \<open>generateInstructions\<close> returns the whole
  target as one \<open>Literal\<close> (nothing for an empty target); and
  \<open>rebuildTargetFromOriginal\<close> returns the bytes of its \<open>Literal\<close> instructions
  in order when no instruction is a \<open>CopyRef\<close>, and fails with the \<open>TypeError\<close>
  of a reference to a chunk that does not exist when one is: the chunk size plays no part
  in either outcome.
\<close>

theorem C4_no_validation:
  assumes "chunkSizeBytes \<le> 0"
  shows "divideToChunks [] chunkSizeBytes = Some [] \<and>
         findDifferingChunks [] targetData chunkSizeBytes =
           Some (map (\<lambda>p. subarray (subarray targetData p (p + chunkSizeBytes)) 0 chunkSizeBytes)
                   [0..int (length targetData) - chunkSizeBytes]) \<and>
         generateInstructions [] targetData chunkSizeBytes =
           Some (if targetData = [] then [] else [Literal targetData]) \<and>
         rebuildTargetFromOriginal [] instructions chunkSizeBytes =
           Some (if \<exists>n. CopyRef n \<in> set instructions then Inl TypeError
                 else Inr (concat (map (instructionBytes []) instructions)))"
proof -
  have 1: "divideToChunks [] chunkSizeBytes = Some []" by (rule divideToChunks_empty)
  have 2: "findDifferingChunks [] targetData chunkSizeBytes =
           Some (map (\<lambda>p. subarray (subarray targetData p (p + chunkSizeBytes)) 0 chunkSizeBytes)
                   [0..int (length targetData) - chunkSizeBytes])"
    using findLoop_no_index_value [of targetData chunkSizeBytes 0 "[]"]
    by (simp add: findDifferingChunks_def divideToChunks_empty buildChecksumMap_empty)
  have 3: "generateInstructions [] targetData chunkSizeBytes =
           Some (if targetData = [] then [] else [Literal targetData])"
    using generateLoop_no_index [of 0 targetData chunkSizeBytes "[]" "[]"]
    by (simp add: generateInstructions_def divideToChunks_empty buildChecksumMap_empty)
  have 4: "rebuildTargetFromOriginal [] instructions chunkSizeBytes =
           Some (if \<exists>n. CopyRef n \<in> set instructions then Inl TypeError
                 else Inr (concat (map (instructionBytes []) instructions)))"
    by (simp only: rebuildTargetFromOriginal_def divideToChunks_empty option.case
        rebuild_no_chunks)
  from 1 2 3 4 show ?thesis by blast
qed

text \<open>
  C4 as amended, at chunk sizes 0 and -1, with instruction lists without and with a
  \<open>CopyRef\<close>.
\<close>

theorem C4_no_validation_witness:
  "divideToChunks [] 0 = Some [] \<and>
   findDifferingChunks [] [1, 2] (- 1) = Some [[], [], [], []] \<and>
   generateInstructions [] [1, 2] 0 = Some [Literal [1, 2]] \<and>
   rebuildTargetFromOriginal [] [Literal [1, 2], Literal [3]] 0 = Some (Inr [1, 2, 3]) \<and>
   rebuildTargetFromOriginal [] [Literal [1, 2], CopyRef 0] (- 1) = Some (Inl TypeError)"
proof -
  have z: "(0::int) \<le> 0" and m: "(- 1::int) \<le> 0" by simp_all
  have up: "[0..3] = [0, 1, 2, 3 :: int]"
    by (simp add: upto_rec1)
  from C4_no_validation [OF z, of "[1, 2]" "[Literal [1, 2], Literal [3]]"]
  have a: "divideToChunks [] 0 = Some []"
    "generateInstructions [] [1, 2] 0 = Some [Literal [1, 2]]"
    "rebuildTargetFromOriginal [] [Literal [1, 2], Literal [3]] 0 = Some (Inr [1, 2, 3])"
    by simp_all
  from C4_no_validation [OF m, of "[1, 2]" "[Literal [1, 2], CopyRef 0]"]
  have b: "findDifferingChunks [] [1, 2] (- 1) = Some [[], [], [], []]"
    "rebuildTargetFromOriginal [] [Literal [1, 2], CopyRef 0] (- 1) = Some (Inl TypeError)"
    by (simp_all add: up subarray_def relativeIndex_def)
  from a b show ?thesis by simp
qed

end
